theory Spec2Isabelle
  imports Main
begin

section \<open>Data model of \<open>src/Game.js\<close>\<close>

text \<open>
  A cell of the board holds \<open>null\<close>, \<open>"X"\<close> (the human player) or \<open>"O"\<close> (the
  computer). \<open>None\<close> stands for \<open>null\<close>. The board is the JavaScript array itself, so
  its length is not fixed by the type; \<open>Array(9).fill(null)\<close> is \<open>replicate 9 None\<close>.
\<close>

datatype mark = MarkX | MarkO

type_synonym cell = "mark option"

type_synonym board = "cell list"

text \<open>
  \<open>checkWinner\<close> returns the winning cell value, the string \<open>"Tie"\<close>, or \<open>null\<close>
  (\<open>None\<close> below).
\<close>

datatype result = Winner mark | Tie

text \<open>
  The scores of the search are JavaScript numbers: \<open>-1\<close>, \<open>0\<close>, \<open>1\<close> and the two
  initial values \<open>-Infinity\<close> and \<open>Infinity\<close>. \<open>Math.max\<close>, \<open>Math.min\<close> and \<open>>\<close>
  are \<open>max\<close>, \<open>min\<close> and \<open><\<close> of the order below.
\<close>

datatype jsnum = NegInf | Fin int | PosInf

instantiation jsnum :: linorder
begin

fun less_eq_jsnum :: "jsnum \<Rightarrow> jsnum \<Rightarrow> bool" where
  "less_eq_jsnum NegInf y = True"
| "less_eq_jsnum (Fin a) NegInf = False"
| "less_eq_jsnum (Fin a) (Fin b) = (a \<le> b)"
| "less_eq_jsnum (Fin a) PosInf = True"
| "less_eq_jsnum PosInf PosInf = True"
| "less_eq_jsnum PosInf y = False"

definition less_jsnum :: "jsnum \<Rightarrow> jsnum \<Rightarrow> bool" where
  "less_jsnum a b = (a \<le> b \<and> \<not> b \<le> a)"

instance
proof
  fix x y z :: jsnum
  show "(x < y) = (x \<le> y \<and> \<not> y \<le> x)" by (simp add: less_jsnum_def)
  show "x \<le> x" by (cases x) auto
  show "x \<le> y \<Longrightarrow> y \<le> z \<Longrightarrow> x \<le> z" by (cases x; cases y; cases z) auto
  show "x \<le> y \<Longrightarrow> y \<le> x \<Longrightarrow> x = y" by (cases x; cases y) auto
  show "x \<le> y \<or> y \<le> x" by (cases x; cases y) auto
qed

end

text \<open>
  The component's state: one field for each \<open>useState\<close> hook.
\<close>

record game =
  board :: board
  isPlayerTurn :: bool
  winner :: "result option"
  playerScore :: nat
  aiScore :: nat
  draws :: nat
  countdown :: nat
  gameStarted :: bool
  roundReady :: bool

text \<open>
  The error kinds the specification names. No function of the source raises or
  returns an error, so no definition below produces \<open>Inl\<close>; the result type
  \<open>error + game\<close> of the two move operations makes that visible.
\<close>

datatype error = InvalidMove | GameAlreadyOver | PreconditionViolated

definition initial :: game where
  "initial =
     \<lparr>board = replicate 9 None, isPlayerTurn = True, winner = None, playerScore = 0,
      aiScore = 0, draws = 0, countdown = 3, gameStarted = False, roundReady = False\<rparr>"

definition startNewGame :: "game \<Rightarrow> game" where
  "startNewGame s =
     s\<lparr>board := replicate 9 None, isPlayerTurn := True, winner := None, countdown := 3,
       gameStarted := True, roundReady := False\<rparr>"

section \<open>\<open>checkWinner\<close>\<close>

definition winningCombinations :: "(nat \<times> nat \<times> nat) list" where
  "winningCombinations =
     [(0, 1, 2), (3, 4, 5), (6, 7, 8), (0, 3, 6), (1, 4, 7), (2, 5, 8), (0, 4, 8), (2, 4, 6)]"

text \<open>
  \<open>currentBoard[i]\<close>: a read past the end of the array gives \<open>undefined\<close>, which is
  falsy and \<open>===\<close> to no mark, as \<open>null\<close> is; both are \<open>None\<close> here.
\<close>

definition cell_at :: "board \<Rightarrow> nat \<Rightarrow> cell" where
  "cell_at currentBoard i = (if i < length currentBoard then currentBoard ! i else None)"

fun checkWinner_loop :: "board \<Rightarrow> (nat \<times> nat \<times> nat) list \<Rightarrow> mark option" where
  "checkWinner_loop currentBoard [] = None"
| "checkWinner_loop currentBoard ((a, b, c) # rest) =
     (if cell_at currentBoard a \<noteq> None
         \<and> cell_at currentBoard a = cell_at currentBoard b
         \<and> cell_at currentBoard a = cell_at currentBoard c
      then cell_at currentBoard a
      else checkWinner_loop currentBoard rest)"

definition checkWinner :: "board \<Rightarrow> result option" where
  "checkWinner currentBoard =
     (case checkWinner_loop currentBoard winningCombinations of
        Some m \<Rightarrow> Some (Winner m)
      | None \<Rightarrow> if list_all (\<lambda>c. c \<noteq> None) currentBoard then Some Tie else None)"

definition updateWinner :: "game \<Rightarrow> result \<Rightarrow> game" where
  "updateWinner s currentWinner =
     (case currentWinner of
        Winner MarkX \<Rightarrow> s\<lparr>playerScore := playerScore s + 1\<rparr>
      | Winner MarkO \<Rightarrow> s\<lparr>aiScore := aiScore s + 1\<rparr>
      | Tie \<Rightarrow> s\<lparr>draws := draws s + 1\<rparr>)
     \<lparr>winner := Some currentWinner, roundReady := True\<rparr>"

section \<open>\<open>handleClick\<close>\<close>

text \<open>
  \<open>newBoard[index] = "X"\<close> on a copy of the board. The grid calls \<open>handleClick\<close> with
  the index of a rendered cell, which is below the length. JavaScript would grow the
  array on a write past its end; the cells in between are padded with \<open>None\<close> here,
  and no result below rests on that case.
\<close>

definition js_assign :: "board \<Rightarrow> nat \<Rightarrow> cell \<Rightarrow> board" where
  "js_assign xs i v =
     (if i < length xs then xs[i := v] else xs @ replicate (i - length xs) None @ [v])"

definition handleClick :: "game \<Rightarrow> nat \<Rightarrow> error + game" where
  "handleClick s index =
     (if cell_at (board s) index \<noteq> None \<or> winner s \<noteq> None \<or> 0 < countdown s
         \<or> \<not> gameStarted s \<or> \<not> roundReady s \<or> \<not> isPlayerTurn s
      then Inr s
      else Inr (s\<lparr>board := js_assign (board s) index (Some MarkX), isPlayerTurn := False\<rparr>))"

section \<open>\<open>minimax\<close>\<close>

text \<open>
  \<open>minimax\<close> writes into the array it is given and erases the mark after the
  recursive call. The array is threaded through the model: both functions return the
  score together with the array as they leave it, and the loop goes on with the
  array the recursive call left behind.
\<close>

function minimax :: "board \<Rightarrow> bool \<Rightarrow> jsnum \<times> board"
  and minimax_loop :: "board \<Rightarrow> bool \<Rightarrow> nat \<Rightarrow> jsnum \<Rightarrow> jsnum \<times> board"
where
  [simp del]: "minimax newBoard isMaximizing =
     (case checkWinner newBoard of
        Some (Winner MarkX) \<Rightarrow> (Fin (- 1), newBoard)
      | Some (Winner MarkO) \<Rightarrow> (Fin 1, newBoard)
      | Some Tie \<Rightarrow> (Fin 0, newBoard)
      | None \<Rightarrow>
          minimax_loop newBoard isMaximizing 0 (if isMaximizing then NegInf else PosInf))"
| [simp del]: "minimax_loop newBoard isMaximizing i bestScore =
     (if i < length newBoard then
        (if newBoard ! i = None then
           (let r = minimax (newBoard[i := Some (if isMaximizing then MarkO else MarkX)])
                      (\<not> isMaximizing);
                score = fst r;
                erased = (snd r)[i := None]
            in minimax_loop erased isMaximizing (i + 1)
                 (if isMaximizing then max score bestScore else min score bestScore))
         else minimax_loop newBoard isMaximizing (i + 1) bestScore)
      else (bestScore, newBoard))"
  by pat_completeness auto

lemma minimax_dom_board:
  "minimax_minimax_loop_dom (Inl (b, f)) \<Longrightarrow> snd (minimax b f) = b"
  "minimax_minimax_loop_dom (Inr (b, f, i, best)) \<Longrightarrow> snd (minimax_loop b f i best) = b"
proof (induction b f and b f i best rule: minimax_minimax_loop.pinduct)
  case (1 newBoard isMaximizing)
  then show ?case
    by (cases isMaximizing)
       (auto simp add: minimax.psimps split: option.splits result.splits mark.splits)
next
  case (2 newBoard isMaximizing i bestScore)
  then show ?case
    by (simp add: minimax_loop.psimps Let_def list_update_same_conv)
qed

lemma count_list_update_None:
  "i < length b \<Longrightarrow> b ! i = None \<Longrightarrow>
   count_list b None = Suc (count_list (b[i := Some m]) None)"
proof (induction b arbitrary: i)
  case Nil
  then show ?case by simp
next
  case (Cons c b)
  then show ?case by (cases i) auto
qed

lemma count_list_update_less:
  "i < length b \<Longrightarrow> b ! i = None \<Longrightarrow> count_list (b[i := Some m]) None < count_list b None"
  by (simp add: count_list_update_None [of i b m])

termination minimax
proof (relation "measures
    [\<lambda>x. case x of Inl (b, f) \<Rightarrow> count_list b None | Inr (b, f, i, best) \<Rightarrow> count_list b None,
     \<lambda>x. case x of Inl (b, f) \<Rightarrow> length b + 1 | Inr (b, f, i, best) \<Rightarrow> length b - i]",
    goal_cases)
  case 1
  show ?case by simp
next
  case 2
  then show ?case by simp
next
  case 3
  then show ?case by (simp add: count_list_update_less)
next
  case (4 newBoard isMaximizing i bestScore r score erased)
  then have "newBoard[i := None] = newBoard"
    by (metis list_update_id)
  with 4 show ?case by (simp add: minimax_dom_board)
next
  case 5
  then show ?case by auto
qed

section \<open>\<open>computerMove\<close>\<close>

text \<open>
  \<open>board.map(...).filter(...)\<close>: the indices of the \<open>null\<close> cells, in ascending order.
  Each candidate is tried on a fresh copy of the board, so the board of the state is
  not touched by the search.
\<close>

definition emptySquares :: "board \<Rightarrow> nat list" where
  "emptySquares b = filter (\<lambda>index. b ! index = None) [0..<length b]"

fun computerMove_loop :: "board \<Rightarrow> nat list \<Rightarrow> jsnum \<Rightarrow> nat option \<Rightarrow> jsnum \<times> nat option" where
  "computerMove_loop b [] bestScore move = (bestScore, move)"
| "computerMove_loop b (i # rest) bestScore move =
     (let newBoard = b[i := Some MarkO];
          score = fst (minimax newBoard False)
      in if bestScore < score then computerMove_loop b rest score (Some i)
         else computerMove_loop b rest bestScore move)"

text \<open>The value of \<open>move\<close> after the loop; \<open>None\<close> is \<open>undefined\<close>.\<close>

definition bestMove :: "board \<Rightarrow> nat option" where
  "bestMove b = snd (computerMove_loop b (emptySquares b) NegInf None)"

definition computerMove :: "game \<Rightarrow> error + game" where
  "computerMove s =
     (case bestMove (board s) of
        Some move \<Rightarrow> Inr (s\<lparr>board := (board s)[move := Some MarkO], isPlayerTurn := True\<rparr>)
      | None \<Rightarrow> Inr (s\<lparr>isPlayerTurn := True\<rparr>))"

section \<open>The game loop\<close>

text \<open>
  The events of the component, each with the guard under which the source runs it:
  the two buttons call \<open>startNewGame\<close> (allowed in every state here, which covers the
  states in which a button is shown); a rendered cell calls \<open>handleClick\<close> with its
  index; the first effect starts the timer of \<open>computerMove\<close> when it is the
  computer's turn, and otherwise records the winner; the second effect counts down
  and then sets \<open>roundReady\<close>. \<open>fire\<close> is \<open>None\<close> when the event cannot happen in
  the state. The timer runs \<open>computerMove\<close> on the state that started it: every
  change of the state in between cancels the timer.
\<close>

datatype event = StartNewGame | Click nat | AiTimer | WinnerEffect | Tick | Ready

fun fire :: "game \<Rightarrow> event \<Rightarrow> game option" where
  "fire s StartNewGame = Some (startNewGame s)"
| "fire s (Click index) =
     (if index < length (board s)
      then (case handleClick s index of Inr s' \<Rightarrow> Some s' | Inl e \<Rightarrow> None)
      else None)"
| "fire s AiTimer =
     (if \<not> isPlayerTurn s \<and> winner s = None \<and> countdown s = 0 \<and> roundReady s
      then (case computerMove s of Inr s' \<Rightarrow> Some s' | Inl e \<Rightarrow> None)
      else None)"
| "fire s WinnerEffect =
     (if \<not> isPlayerTurn s \<and> winner s = None \<and> countdown s = 0 \<and> roundReady s then None
      else (case checkWinner (board s) of
              Some currentWinner \<Rightarrow>
                if winner s = None then Some (updateWinner s currentWinner) else None
            | None \<Rightarrow> None))"
| "fire s Tick =
     (if 0 < countdown s \<and> gameStarted s then Some (s\<lparr>countdown := countdown s - 1\<rparr>)
      else None)"
| "fire s Ready =
     (if countdown s = 0 \<and> gameStarted s \<and> \<not> roundReady s then Some (s\<lparr>roundReady := True\<rparr>)
      else None)"

fun run :: "game \<Rightarrow> event list \<Rightarrow> game option" where
  "run s [] = Some s"
| "run s (e # es) = (case fire s e of Some s' \<Rightarrow> run s' es | None \<Rightarrow> None)"

section \<open>Notions of the specification\<close>

text \<open>
  The eight lines as the specification describes them: row \<open>r\<close>, column \<open>c\<close> of the
  row-major grid, and the two diagonals.
\<close>

definition rows :: "(nat \<times> nat \<times> nat) list" where
  "rows = map (\<lambda>r. (3 * r, 3 * r + 1, 3 * r + 2)) [0..<3]"

definition columns :: "(nat \<times> nat \<times> nat) list" where
  "columns = map (\<lambda>c. (c, c + 3, c + 6)) [0..<3]"

definition diagonals :: "(nat \<times> nat \<times> nat) list" where
  "diagonals = [(0, 4, 8), (2, 4, 6)]"

definition line_won :: "board \<Rightarrow> mark \<Rightarrow> nat \<times> nat \<times> nat \<Rightarrow> bool" where
  "line_won b m l = (case l of (i, j, k) \<Rightarrow> b ! i = Some m \<and> b ! j = Some m \<and> b ! k = Some m)"

definition has_line :: "board \<Rightarrow> mark \<Rightarrow> bool" where
  "has_line b m = list_ex (line_won b m) (rows @ columns @ diagonals)"

text \<open>The score \<open>minimax\<close> gives a finished game.\<close>

definition result_score :: "result \<Rightarrow> int" where
  "result_score r = (case r of Winner MarkX \<Rightarrow> - 1 | Winner MarkO \<Rightarrow> 1 | Tie \<Rightarrow> 0)"

text \<open>The score of the board after the mover of flag \<open>f\<close> has taken cell \<open>j\<close>.\<close>

definition child_score :: "board \<Rightarrow> bool \<Rightarrow> nat \<Rightarrow> jsnum" where
  "child_score b f j = fst (minimax (b[j := Some (if f then MarkO else MarkX)]) (\<not> f))"

text \<open>
  \<open>forces P b mover\<close>: from board \<open>b\<close> with \<open>mover\<close> to move, the computer (\<open>O\<close>) can
  play so that the game ends in a result satisfying \<open>P\<close> whatever the human (\<open>X\<close>)
  plays: a finished game must satisfy \<open>P\<close>, the computer needs one good move, and
  every move of the human must lead to a board from which this holds again.
\<close>

function forces :: "(result \<Rightarrow> bool) \<Rightarrow> board \<Rightarrow> mark \<Rightarrow> bool" where
  [simp del]: "forces P b mover =
     (case checkWinner b of
        Some r \<Rightarrow> P r
      | None \<Rightarrow>
          (if mover = MarkO
           then list_ex (\<lambda>i. forces P (b[i := Some MarkO]) MarkX) (emptySquares b)
           else list_all (\<lambda>i. forces P (b[i := Some MarkX]) MarkO) (emptySquares b)))"
  by pat_completeness auto

lemma emptySquares_set: "i \<in> set (emptySquares b) \<longleftrightarrow> i < length b \<and> b ! i = None"
  by (auto simp add: emptySquares_def)

termination forces
  by (relation "measure (\<lambda>(P, b, mover). count_list b None)")
     (auto simp add: emptySquares_set count_list_update_less)

lemma computerMove_loop_move:
  "snd (computerMove_loop b es bestScore move) = Some m \<Longrightarrow> move = Some m \<or> m \<in> set es"
  by (induction es arbitrary: bestScore move) (auto simp add: Let_def split: if_splits)

lemma bestMove_Some_empty: "bestMove b = Some m \<Longrightarrow> m < length b \<and> b ! m = None"
  using computerMove_loop_move [of b "emptySquares b" NegInf None m]
  by (simp add: bestMove_def emptySquares_set)

text \<open>
  \<open>engine_secures P b mover\<close>: when the computer plays the move of \<open>bestMove\<close> at each
  of its turns, every game from \<open>b\<close> ends in a result satisfying \<open>P\<close>, whatever the
  human plays.
\<close>

function engine_secures :: "(result \<Rightarrow> bool) \<Rightarrow> board \<Rightarrow> mark \<Rightarrow> bool" where
  [simp del]: "engine_secures P b mover =
     (case checkWinner b of
        Some r \<Rightarrow> P r
      | None \<Rightarrow>
          (if mover = MarkO
           then (case bestMove b of
                   Some move \<Rightarrow> engine_secures P (b[move := Some MarkO]) MarkX
                 | None \<Rightarrow> False)
           else list_all (\<lambda>i. engine_secures P (b[i := Some MarkX]) MarkO) (emptySquares b)))"
  by pat_completeness auto

termination engine_secures
  by (relation "measure (\<lambda>(P, b, mover). count_list b None)")
     (auto simp add: emptySquares_set count_list_update_less dest: bestMove_Some_empty)

text \<open>
  A way of playing for the computer, written out as a tree: at a board where the
  computer moves, \<open>Reply m p\<close> plays cell \<open>m\<close> and goes on with \<open>p\<close>; at a board
  where the human moves, \<open>Branch ps\<close> holds one tree for each empty cell, in ascending
  order of the cells. \<open>plan_secures P pl b mover\<close>: the tree \<open>pl\<close> fits the board and
  every game played along it ends in a result satisfying \<open>P\<close>.
\<close>

datatype plan = Done | Reply nat plan | Branch "plan list"

function plan_secures :: "(result \<Rightarrow> bool) \<Rightarrow> plan \<Rightarrow> board \<Rightarrow> mark \<Rightarrow> bool" where
  [simp del]: "plan_secures P pl b mover =
     (case checkWinner b of
        Some r \<Rightarrow> P r
      | None \<Rightarrow>
          (case pl of
             Done \<Rightarrow> False
           | Reply m p \<Rightarrow>
               mover = MarkO \<and> m < length b \<and> b ! m = None
               \<and> plan_secures P p (b[m := Some MarkO]) MarkX
           | Branch ps \<Rightarrow>
               mover = MarkX \<and> length ps = length (emptySquares b)
               \<and> list_all
                    (\<lambda>k. plan_secures P (ps ! k) (b[emptySquares b ! k := Some MarkX]) MarkO)
                    [0..<length ps]))"
  by pat_completeness auto

termination plan_secures
proof (relation "measure (\<lambda>(P, pl, b, mover). size pl)", goal_cases)
  case 1
  show ?case by simp
next
  case 2
  then show ?case by simp
next
  case (3 P pl b mover ps k)
  then have "ps ! k \<in> set ps" by simp
  then have "size (ps ! k) \<le> size_list size ps"
    by (rule size_list_estimation') simp
  with 3 show ?case by simp
qed

text \<open>
  The replies of \<open>bestMove\<close> to every play of the human from the empty board, the
  human moving first.
\<close>

definition human_first_plan :: plan where
  "human_first_plan =
     Branch [Reply 4 (Branch [Reply 2 (Branch [Reply 6 Done, Reply 6 Done, Reply 3 (Branch [Reply
     7 (Branch [Done]), Reply 5 Done, Reply 5 Done]), Reply 3 (Branch [Reply 6 Done, Reply 5
     Done, Reply 5 Done]), Reply 3 (Branch [Reply 6 Done, Reply 5 Done, Reply 5 Done])]), Reply 1
     (Branch [Reply 7 Done, Reply 7 Done, Reply 3 (Branch [Reply 7 Done, Reply 5 Done, Reply 5
     Done]), Reply 3 (Branch [Reply 8 (Branch [Done]), Reply 5 Done, Reply 5 Done]), Reply 5
     (Branch [Reply 7 Done, Reply 3 Done, Reply 3 Done])]), Reply 6 (Branch [Reply 2 Done, Reply
     1 (Branch [Reply 7 Done, Reply 5 (Branch [Done]), Reply 7 Done]), Reply 1 (Branch [Reply 7
     Done, Reply 2 Done, Reply 2 Done]), Reply 2 Done, Reply 1 (Branch [Reply 7 Done, Reply 2
     Done, Reply 2 Done])]), Reply 1 (Branch [Reply 7 Done, Reply 6 (Branch [Reply 7 Done, Reply
     2 Done, Reply 2 Done]), Reply 7 Done, Reply 6 (Branch [Reply 8 (Branch [Done]), Reply 2
     Done, Reply 2 Done]), Reply 2 (Branch [Reply 6 Done, Reply 7 Done, Reply 6 Done])]), Reply 3
     (Branch [Reply 5 Done, Reply 1 (Branch [Reply 7 Done, Reply 5 Done, Reply 5 Done]), Reply 1
     (Branch [Reply 7 Done, Reply 8 (Branch [Done]), Reply 7 Done]), Reply 5 Done, Reply 5
     Done]), Reply 3 (Branch [Reply 2 (Branch [Reply 6 Done, Reply 5 Done, Reply 5 Done]), Reply
     5 Done, Reply 2 (Branch [Reply 6 Done, Reply 8 (Branch [Done]), Reply 6 Done]), Reply 5
     Done, Reply 5 Done]), Reply 1 (Branch [Reply 5 (Branch [Reply 7 Done, Reply 3 Done, Reply 3
     Done]), Reply 6 (Branch [Reply 7 Done, Reply 2 Done, Reply 2 Done]), Reply 2 (Branch [Reply
     6 Done, Reply 7 Done, Reply 6 Done]), Reply 7 Done, Reply 6 (Branch [Reply 5 (Branch
     [Done]), Reply 2 Done, Reply 2 Done])])]), Reply 0 (Branch [Reply 3 (Branch [Reply 6 Done,
     Reply 6 Done, Reply 4 (Branch [Reply 8 Done, Reply 5 Done, Reply 5 Done]), Reply 4 (Branch
     [Reply 6 Done, Reply 5 Done, Reply 5 Done]), Reply 5 (Branch [Reply 6 Done, Reply 4 Done,
     Reply 4 Done])]), Reply 4 (Branch [Reply 8 Done, Reply 2 (Branch [Reply 8 Done, Reply 6
     Done, Reply 6 Done]), Reply 8 Done, Reply 2 (Branch [Reply 6 Done, Reply 8 Done, Reply 6
     Done]), Reply 2 (Branch [Reply 6 Done, Reply 7 (Branch [Done]), Reply 6 Done])]), Reply 7
     (Branch [Reply 6 (Branch [Reply 8 Done, Reply 3 Done, Reply 3 Done]), Reply 5 (Branch [Reply
     6 (Branch [Done]), Reply 2 (Branch [Done]), Reply 2 (Branch [Done])]), Reply 3 (Branch
     [Reply 6 Done, Reply 2 (Branch [Done]), Reply 6 Done]), Reply 2 (Branch [Reply 5 (Branch
     [Done]), Reply 3 (Branch [Done]), Reply 3 (Branch [Done])]), Reply 2 (Branch [Reply 5
     (Branch [Done]), Reply 3 (Branch [Done]), Reply 3 (Branch [Done])])]), Reply 6 (Branch
     [Reply 3 Done, Reply 4 (Branch [Reply 8 Done, Reply 2 Done, Reply 2 Done]), Reply 3 Done,
     Reply 3 Done, Reply 2 (Branch [Reply 4 Done, Reply 3 Done, Reply 3 Done])]), Reply 4 (Branch
     [Reply 3 (Branch [Reply 8 Done, Reply 5 Done, Reply 5 Done]), Reply 8 Done, Reply 8 Done,
     Reply 8 Done, Reply 7 (Branch [Reply 5 (Branch [Done]), Reply 2 (Branch [Done]), Reply 2
     (Branch [Done])])]), Reply 4 (Branch [Reply 3 (Branch [Reply 6 Done, Reply 5 Done, Reply 5
     Done]), Reply 2 (Branch [Reply 6 Done, Reply 8 Done, Reply 6 Done]), Reply 2 (Branch [Reply
     6 Done, Reply 8 Done, Reply 6 Done]), Reply 8 Done, Reply 6 (Branch [Reply 3 Done, Reply 2
     Done, Reply 2 Done])]), Reply 4 (Branch [Reply 5 (Branch [Reply 6 (Branch [Done]), Reply 3
     Done, Reply 3 Done]), Reply 2 (Branch [Reply 6 Done, Reply 7 (Branch [Done]), Reply 6
     Done]), Reply 2 (Branch [Reply 6 Done, Reply 7 (Branch [Done]), Reply 6 Done]), Reply 7
     (Branch [Reply 5 (Branch [Done]), Reply 2 (Branch [Done]), Reply 2 (Branch [Done])]), Reply
     6 (Branch [Reply 3 Done, Reply 2 Done, Reply 2 Done])])]), Reply 4 (Branch [Reply 1 (Branch
     [Reply 7 Done, Reply 7 Done, Reply 3 (Branch [Reply 7 Done, Reply 5 Done, Reply 5 Done]),
     Reply 3 (Branch [Reply 8 (Branch [Done]), Reply 5 Done, Reply 5 Done]), Reply 5 (Branch
     [Reply 7 Done, Reply 3 Done, Reply 3 Done])]), Reply 0 (Branch [Reply 8 Done, Reply 8 Done,
     Reply 3 (Branch [Reply 8 Done, Reply 5 Done, Reply 5 Done]), Reply 3 (Branch [Reply 6 Done,
     Reply 5 Done, Reply 5 Done]), Reply 5 (Branch [Reply 6 (Branch [Done]), Reply 3 Done, Reply
     3 Done])]), Reply 0 (Branch [Reply 8 Done, Reply 8 Done, Reply 1 (Branch [Reply 7 Done,
     Reply 8 Done, Reply 7 Done]), Reply 8 Done, Reply 5 (Branch [Reply 6 (Branch [Done]), Reply
     7 (Branch [Done]), Reply 6 (Branch [Done])])]), Reply 8 (Branch [Reply 1 (Branch [Reply 7
     Done, Reply 7 Done, Reply 3 (Branch [Done])]), Reply 0 Done, Reply 0 Done, Reply 0 Done,
     Reply 0 Done]), Reply 1 (Branch [Reply 3 (Branch [Reply 7 Done, Reply 5 Done, Reply 5
     Done]), Reply 0 (Branch [Reply 7 Done, Reply 8 Done, Reply 7 Done]), Reply 7 Done, Reply 8
     (Branch [Reply 3 (Branch [Done]), Reply 0 Done, Reply 0 Done]), Reply 7 Done]), Reply 3
     (Branch [Reply 5 Done, Reply 0 (Branch [Reply 6 Done, Reply 5 Done, Reply 5 Done]), Reply 8
     (Branch [Reply 1 (Branch [Done]), Reply 0 Done, Reply 0 Done]), Reply 5 Done, Reply 5
     Done]), Reply 5 (Branch [Reply 1 (Branch [Reply 7 Done, Reply 3 Done, Reply 3 Done]), Reply
     3 Done, Reply 0 (Branch [Reply 6 (Branch [Done]), Reply 7 (Branch [Done]), Reply 6 (Branch
     [Done])]), Reply 3 Done, Reply 3 Done])]), Reply 0 (Branch [Reply 4 (Branch [Reply 8 Done,
     Reply 2 (Branch [Reply 8 Done, Reply 6 Done, Reply 6 Done]), Reply 8 Done, Reply 2 (Branch
     [Reply 6 Done, Reply 8 Done, Reply 6 Done]), Reply 2 (Branch [Reply 6 Done, Reply 7 (Branch
     [Done]), Reply 6 Done])]), Reply 4 (Branch [Reply 8 Done, Reply 8 Done, Reply 1 (Branch
     [Reply 7 Done, Reply 8 Done, Reply 7 Done]), Reply 8 Done, Reply 5 (Branch [Reply 6 (Branch
     [Done]), Reply 7 (Branch [Done]), Reply 6 (Branch [Done])])]), Reply 5 (Branch [Reply 7
     (Branch [Reply 6 (Branch [Done]), Reply 2 (Branch [Done]), Reply 2 (Branch [Done])]), Reply
     6 (Branch [Reply 7 (Branch [Done]), Reply 1 (Branch [Done]), Reply 1 (Branch [Done])]),
     Reply 2 (Branch [Reply 8 Done, Reply 1 Done, Reply 1 Done]), Reply 1 (Branch [Reply 6
     (Branch [Done]), Reply 2 Done, Reply 2 Done]), Reply 1 (Branch [Reply 6 (Branch [Done]),
     Reply 2 Done, Reply 2 Done])]), Reply 4 (Branch [Reply 2 (Branch [Reply 8 Done, Reply 6
     Done, Reply 6 Done]), Reply 8 Done, Reply 1 (Branch [Reply 7 Done, Reply 2 Done, Reply 2
     Done]), Reply 1 (Branch [Reply 8 Done, Reply 2 Done, Reply 2 Done]), Reply 2 (Branch [Reply
     6 Done, Reply 1 Done, Reply 1 Done])]), Reply 1 (Branch [Reply 4 (Branch [Reply 7 Done,
     Reply 8 Done, Reply 7 Done]), Reply 2 Done, Reply 2 Done, Reply 2 Done, Reply 2 Done]),
     Reply 2 (Branch [Reply 4 (Branch [Reply 6 Done, Reply 8 Done, Reply 6 Done]), Reply 1 Done,
     Reply 1 Done, Reply 1 Done, Reply 1 Done]), Reply 2 (Branch [Reply 4 (Branch [Reply 6 Done,
     Reply 7 (Branch [Done]), Reply 6 Done]), Reply 1 Done, Reply 1 Done, Reply 1 Done, Reply 1
     Done])]), Reply 0 (Branch [Reply 7 (Branch [Reply 6 (Branch [Reply 8 Done, Reply 3 Done,
     Reply 3 Done]), Reply 5 (Branch [Reply 6 (Branch [Done]), Reply 2 (Branch [Done]), Reply 2
     (Branch [Done])]), Reply 3 (Branch [Reply 6 Done, Reply 2 (Branch [Done]), Reply 6 Done]),
     Reply 2 (Branch [Reply 5 (Branch [Done]), Reply 3 (Branch [Done]), Reply 3 (Branch
     [Done])]), Reply 2 (Branch [Reply 5 (Branch [Done]), Reply 3 (Branch [Done]), Reply 3
     (Branch [Done])])]), Reply 6 (Branch [Reply 3 Done, Reply 5 (Branch [Reply 7 (Branch
     [Done]), Reply 1 (Branch [Done]), Reply 1 (Branch [Done])]), Reply 3 Done, Reply 3 Done,
     Reply 3 Done]), Reply 5 (Branch [Reply 7 (Branch [Reply 6 (Branch [Done]), Reply 2 (Branch
     [Done]), Reply 2 (Branch [Done])]), Reply 6 (Branch [Reply 7 (Branch [Done]), Reply 1
     (Branch [Done]), Reply 1 (Branch [Done])]), Reply 2 (Branch [Reply 8 Done, Reply 1 Done,
     Reply 1 Done]), Reply 1 (Branch [Reply 6 (Branch [Done]), Reply 2 Done, Reply 2 Done]),
     Reply 1 (Branch [Reply 6 (Branch [Done]), Reply 2 Done, Reply 2 Done])]), Reply 3 (Branch
     [Reply 6 Done, Reply 6 Done, Reply 2 (Branch [Reply 7 (Branch [Done]), Reply 1 Done, Reply 1
     Done]), Reply 1 (Branch [Reply 6 Done, Reply 2 Done, Reply 2 Done]), Reply 2 (Branch [Reply
     6 Done, Reply 1 Done, Reply 1 Done])]), Reply 2 (Branch [Reply 7 (Branch [Reply 5 (Branch
     [Done]), Reply 3 (Branch [Done]), Reply 3 (Branch [Done])]), Reply 1 Done, Reply 1 Done,
     Reply 1 Done, Reply 1 Done]), Reply 1 (Branch [Reply 6 (Branch [Reply 5 (Branch [Done]),
     Reply 3 Done, Reply 3 Done]), Reply 2 Done, Reply 2 Done, Reply 2 Done, Reply 2 Done]),
     Reply 2 (Branch [Reply 7 (Branch [Reply 5 (Branch [Done]), Reply 3 (Branch [Done]), Reply 3
     (Branch [Done])]), Reply 1 Done, Reply 1 Done, Reply 1 Done, Reply 1 Done])]), Reply 2
     (Branch [Reply 3 (Branch [Reply 4 (Branch [Reply 7 (Branch [Done]), Reply 6 Done, Reply 6
     Done]), Reply 8 (Branch [Reply 7 (Branch [Done]), Reply 1 (Branch [Done]), Reply 1 (Branch
     [Done])]), Reply 4 (Branch [Reply 7 (Branch [Done]), Reply 8 (Branch [Done]), Reply 7
     (Branch [Done])]), Reply 4 (Branch [Reply 6 Done, Reply 8 (Branch [Done]), Reply 6 Done]),
     Reply 4 (Branch [Reply 6 Done, Reply 7 (Branch [Done]), Reply 6 Done])]), Reply 3 (Branch
     [Reply 4 (Branch [Reply 7 (Branch [Done]), Reply 6 Done, Reply 6 Done]), Reply 7 (Branch
     [Reply 8 (Branch [Done]), Reply 0 (Branch [Done]), Reply 0 (Branch [Done])]), Reply 4
     (Branch [Reply 7 (Branch [Done]), Reply 8 (Branch [Done]), Reply 7 (Branch [Done])]), Reply
     4 (Branch [Reply 6 Done, Reply 8 (Branch [Done]), Reply 6 Done]), Reply 6 (Branch [Reply 4
     Done, Reply 0 Done, Reply 0 Done])]), Reply 4 (Branch [Reply 6 Done, Reply 0 (Branch [Reply
     8 Done, Reply 6 Done, Reply 6 Done]), Reply 0 (Branch [Reply 8 Done, Reply 1 Done, Reply 1
     Done]), Reply 0 (Branch [Reply 6 Done, Reply 1 Done, Reply 1 Done]), Reply 0 (Branch [Reply
     6 Done, Reply 1 Done, Reply 1 Done])]), Reply 3 (Branch [Reply 8 (Branch [Reply 7 (Branch
     [Done]), Reply 1 (Branch [Done]), Reply 1 (Branch [Done])]), Reply 7 (Branch [Reply 8
     (Branch [Done]), Reply 0 (Branch [Done]), Reply 0 (Branch [Done])]), Reply 0 (Branch [Reply
     7 (Branch [Done]), Reply 1 Done, Reply 1 Done]), Reply 1 (Branch [Reply 8 (Branch [Done]),
     Reply 0 Done, Reply 0 Done]), Reply 0 (Branch [Reply 6 Done, Reply 1 Done, Reply 1 Done])]),
     Reply 0 (Branch [Reply 4 (Branch [Reply 8 Done, Reply 8 Done, Reply 7 (Branch [Done])]),
     Reply 1 Done, Reply 1 Done, Reply 1 Done, Reply 1 Done]), Reply 0 (Branch [Reply 4 (Branch
     [Reply 6 Done, Reply 8 Done, Reply 6 Done]), Reply 1 Done, Reply 1 Done, Reply 1 Done, Reply
     1 Done]), Reply 0 (Branch [Reply 6 (Branch [Reply 4 Done, Reply 3 Done, Reply 3 Done]),
     Reply 1 Done, Reply 1 Done, Reply 1 Done, Reply 1 Done])]), Reply 4 (Branch [Reply 3 (Branch
     [Reply 5 Done, Reply 1 (Branch [Reply 7 Done, Reply 5 Done, Reply 5 Done]), Reply 1 (Branch
     [Reply 7 Done, Reply 8 (Branch [Done]), Reply 7 Done]), Reply 5 Done, Reply 5 Done]), Reply
     0 (Branch [Reply 3 (Branch [Reply 8 Done, Reply 5 Done, Reply 5 Done]), Reply 8 Done, Reply
     8 Done, Reply 8 Done, Reply 7 (Branch [Reply 5 (Branch [Done]), Reply 2 (Branch [Done]),
     Reply 2 (Branch [Done])])]), Reply 1 (Branch [Reply 3 (Branch [Reply 7 Done, Reply 5 Done,
     Reply 5 Done]), Reply 0 (Branch [Reply 7 Done, Reply 8 Done, Reply 7 Done]), Reply 7 Done,
     Reply 8 (Branch [Reply 3 (Branch [Done]), Reply 0 Done, Reply 0 Done]), Reply 7 Done]),
     Reply 0 (Branch [Reply 8 Done, Reply 1 (Branch [Reply 7 Done, Reply 8 Done, Reply 7 Done]),
     Reply 1 (Branch [Reply 7 Done, Reply 2 Done, Reply 2 Done]), Reply 8 Done, Reply 7 (Branch
     [Reply 2 (Branch [Done]), Reply 1 Done, Reply 1 Done])]), Reply 1 (Branch [Reply 7 Done,
     Reply 7 Done, Reply 0 (Branch [Reply 7 Done, Reply 2 Done, Reply 2 Done]), Reply 8 (Branch
     [Reply 3 (Branch [Done]), Reply 0 Done, Reply 0 Done]), Reply 7 Done]), Reply 8 (Branch
     [Reply 3 (Branch [Reply 5 Done, Reply 5 Done, Reply 1 (Branch [Done])]), Reply 0 Done, Reply
     0 Done, Reply 0 Done, Reply 0 Done]), Reply 7 (Branch [Reply 1 Done, Reply 0 (Branch [Reply
     5 (Branch [Done]), Reply 2 (Branch [Done]), Reply 2 (Branch [Done])]), Reply 1 Done, Reply 1
     Done, Reply 1 Done])]), Reply 1 (Branch [Reply 6 (Branch [Reply 4 (Branch [Reply 5 (Branch
     [Done]), Reply 8 (Branch [Done]), Reply 5 (Branch [Done])]), Reply 4 (Branch [Reply 5
     (Branch [Done]), Reply 2 Done, Reply 2 Done]), Reply 8 (Branch [Reply 3 (Branch [Done]),
     Reply 5 (Branch [Done]), Reply 3 (Branch [Done])]), Reply 4 (Branch [Reply 8 (Branch
     [Done]), Reply 2 Done, Reply 2 Done]), Reply 4 (Branch [Reply 5 (Branch [Done]), Reply 2
     Done, Reply 2 Done])]), Reply 6 (Branch [Reply 4 (Branch [Reply 5 (Branch [Done]), Reply 8
     (Branch [Done]), Reply 5 (Branch [Done])]), Reply 4 (Branch [Reply 5 (Branch [Done]), Reply
     8 (Branch [Done]), Reply 5 (Branch [Done])]), Reply 0 (Branch [Reply 5 (Branch [Done]),
     Reply 3 Done, Reply 3 Done]), Reply 8 (Branch [Reply 3 (Branch [Done]), Reply 4 (Branch
     [Done]), Reply 3 (Branch [Done])]), Reply 5 (Branch [Reply 4 (Branch [Done]), Reply 0
     (Branch [Done]), Reply 0 (Branch [Done])])]), Reply 6 (Branch [Reply 4 (Branch [Reply 5
     (Branch [Done]), Reply 2 Done, Reply 2 Done]), Reply 4 (Branch [Reply 5 (Branch [Done]),
     Reply 8 (Branch [Done]), Reply 5 (Branch [Done])]), Reply 5 (Branch [Reply 8 (Branch
     [Done]), Reply 0 (Branch [Done]), Reply 0 (Branch [Done])]), Reply 4 (Branch [Reply 2 Done,
     Reply 8 (Branch [Done]), Reply 2 Done]), Reply 2 (Branch [Reply 4 Done, Reply 0 Done, Reply
     0 Done])]), Reply 0 (Branch [Reply 6 (Branch [Reply 5 (Branch [Done]), Reply 3 Done, Reply 3
     Done]), Reply 2 Done, Reply 2 Done, Reply 2 Done, Reply 2 Done]), Reply 6 (Branch [Reply 4
     (Branch [Reply 8 (Branch [Done]), Reply 2 Done, Reply 2 Done]), Reply 8 (Branch [Reply 3
     (Branch [Done]), Reply 4 (Branch [Done]), Reply 3 (Branch [Done])]), Reply 4 (Branch [Reply
     2 Done, Reply 8 (Branch [Done]), Reply 2 Done]), Reply 3 (Branch [Reply 8 (Branch [Done]),
     Reply 0 Done, Reply 0 Done]), Reply 2 (Branch [Reply 4 Done, Reply 0 Done, Reply 0 Done])]),
     Reply 8 (Branch [Reply 3 (Branch [Reply 4 (Branch [Done]), Reply 2 (Branch [Done]), Reply 2
     (Branch [Done])]), Reply 4 (Branch [Reply 3 (Branch [Done]), Reply 0 Done, Reply 0 Done]),
     Reply 0 (Branch [Reply 4 Done, Reply 2 Done, Reply 2 Done]), Reply 2 (Branch [Reply 5 Done,
     Reply 0 Done, Reply 0 Done]), Reply 0 (Branch [Reply 4 Done, Reply 2 Done, Reply 2 Done])]),
     Reply 6 (Branch [Reply 4 (Branch [Reply 5 (Branch [Done]), Reply 2 Done, Reply 2 Done]),
     Reply 5 (Branch [Reply 4 (Branch [Done]), Reply 0 (Branch [Done]), Reply 0 (Branch
     [Done])]), Reply 2 (Branch [Reply 4 Done, Reply 0 Done, Reply 0 Done]), Reply 0 (Branch
     [Reply 3 Done, Reply 2 Done, Reply 2 Done]), Reply 2 (Branch [Reply 4 Done, Reply 0 Done,
     Reply 0 Done])])]), Reply 4 (Branch [Reply 1 (Branch [Reply 5 (Branch [Reply 7 Done, Reply 3
     Done, Reply 3 Done]), Reply 6 (Branch [Reply 7 Done, Reply 2 Done, Reply 2 Done]), Reply 2
     (Branch [Reply 6 Done, Reply 7 Done, Reply 6 Done]), Reply 7 Done, Reply 6 (Branch [Reply 5
     (Branch [Done]), Reply 2 Done, Reply 2 Done])]), Reply 0 (Branch [Reply 5 (Branch [Reply 6
     (Branch [Done]), Reply 3 Done, Reply 3 Done]), Reply 2 (Branch [Reply 6 Done, Reply 7
     (Branch [Done]), Reply 6 Done]), Reply 2 (Branch [Reply 6 Done, Reply 7 (Branch [Done]),
     Reply 6 Done]), Reply 7 (Branch [Reply 5 (Branch [Done]), Reply 2 (Branch [Done]), Reply 2
     (Branch [Done])]), Reply 6 (Branch [Reply 3 Done, Reply 2 Done, Reply 2 Done])]), Reply 5
     (Branch [Reply 1 (Branch [Reply 7 Done, Reply 3 Done, Reply 3 Done]), Reply 3 Done, Reply 0
     (Branch [Reply 6 (Branch [Done]), Reply 7 (Branch [Done]), Reply 6 (Branch [Done])]), Reply
     3 Done, Reply 3 Done]), Reply 0 (Branch [Reply 2 (Branch [Reply 6 Done, Reply 7 (Branch
     [Done]), Reply 6 Done]), Reply 5 (Branch [Reply 6 (Branch [Done]), Reply 7 (Branch [Done]),
     Reply 6 (Branch [Done])]), Reply 2 (Branch [Reply 6 Done, Reply 1 Done, Reply 1 Done]),
     Reply 7 (Branch [Reply 2 (Branch [Done]), Reply 1 Done, Reply 1 Done]), Reply 6 (Branch
     [Reply 2 Done, Reply 5 (Branch [Done]), Reply 2 Done])]), Reply 2 (Branch [Reply 1 (Branch
     [Reply 6 Done, Reply 7 Done, Reply 6 Done]), Reply 6 Done, Reply 0 (Branch [Reply 6 Done,
     Reply 1 Done, Reply 1 Done]), Reply 7 (Branch [Reply 1 Done, Reply 0 (Branch [Done]), Reply
     1 Done]), Reply 6 Done]), Reply 7 (Branch [Reply 1 Done, Reply 0 (Branch [Reply 5 (Branch
     [Done]), Reply 2 (Branch [Done]), Reply 2 (Branch [Done])]), Reply 1 Done, Reply 1 Done,
     Reply 1 Done]), Reply 6 (Branch [Reply 2 Done, Reply 0 (Branch [Reply 3 Done, Reply 2 Done,
     Reply 2 Done]), Reply 5 (Branch [Reply 3 Done, Reply 3 Done, Reply 0 (Branch [Done])]),
     Reply 2 Done, Reply 2 Done])])]"

text \<open>
  The dual notion: the human (\<open>X\<close>) can play so that the game ends in a win of \<open>X\<close>
  whatever the computer plays.
\<close>

function human_forces_win :: "board \<Rightarrow> mark \<Rightarrow> bool" where
  [simp del]: "human_forces_win b mover =
     (case checkWinner b of
        Some r \<Rightarrow> r = Winner MarkX
      | None \<Rightarrow>
          (if mover = MarkX
           then list_ex (\<lambda>i. human_forces_win (b[i := Some MarkX]) MarkO) (emptySquares b)
           else list_all (\<lambda>i. human_forces_win (b[i := Some MarkO]) MarkX) (emptySquares b)))"
  by pat_completeness auto

termination human_forces_win
  by (relation "measure (\<lambda>(b, mover). count_list b None)")
     (auto simp add: emptySquares_set count_list_update_less)

text \<open>
  The turn derived from the board, in the words of the specification: the mark with
  fewer placed cells moves next, and \<open>X\<close> moves first.
\<close>

definition turn :: "board \<Rightarrow> mark" where
  "turn b = (if count_list b (Some MarkO) < count_list b (Some MarkX) then MarkO else MarkX)"

text \<open>
  The flag-free search of the specification, section 4.2: the mark placed is
  \<open>turn b\<close>, the side whose turn matches \<open>maximizingMark\<close> takes the maximum of the
  children, the other side the minimum.
\<close>

function spec_score :: "board \<Rightarrow> mark \<Rightarrow> jsnum" where
  [simp del]: "spec_score b maximizingMark =
     (case checkWinner b of
        Some (Winner w) \<Rightarrow> if w = maximizingMark then Fin 1 else Fin (- 1)
      | Some Tie \<Rightarrow> Fin 0
      | None \<Rightarrow>
          (let children =
                 map (\<lambda>i. spec_score (b[i := Some (turn b)]) maximizingMark) (emptySquares b)
           in if turn b = maximizingMark then Max (set children) else Min (set children)))"
  by pat_completeness auto

termination spec_score
  by (relation "measure (\<lambda>(b, maximizingMark). count_list b None)")
     (auto simp add: emptySquares_set count_list_update_less)

text \<open>
  The flag of \<open>minimax\<close> agrees with the marks on the board: \<open>X\<close> has one mark more
  than \<open>O\<close> when the flag says \<open>O\<close> moves, and as many when it says \<open>X\<close> moves.
\<close>

definition flag_matches_turn :: "board \<Rightarrow> bool \<Rightarrow> bool" where
  "flag_matches_turn b f =
     (if f then count_list b (Some MarkX) = count_list b (Some MarkO) + 1
      else count_list b (Some MarkX) = count_list b (Some MarkO))"

text \<open>The count of \<open>X\<close> marks minus the count of \<open>O\<close> marks.\<close>

definition mark_difference :: "board \<Rightarrow> int" where
  "mark_difference b = int (count_list b (Some MarkX)) - int (count_list b (Some MarkO))"

text \<open>
  What the turn flag of the component says about the marks: on the human's turn both
  marks have as many cells, or the board is full after the human's last move; on the
  computer's turn \<open>X\<close> has one cell more.
\<close>

definition turn_invariant :: "game \<Rightarrow> bool" where
  "turn_invariant s =
     (if isPlayerTurn s
      then mark_difference (board s) = 0
         \<or> (mark_difference (board s) = 1 \<and> emptySquares (board s) = [])
      else mark_difference (board s) = 1)"

section \<open>The search leaves the array as it found it\<close>

lemma minimax_board:
  "snd (minimax b f) = b"
  "snd (minimax_loop b f i best) = b"
proof (induction b f and b f i best rule: minimax_minimax_loop.induct)
  case (1 newBoard isMaximizing)
  then show ?case
    by (cases isMaximizing)
       (auto simp add: minimax.simps split: option.splits result.splits mark.splits)
next
  case (2 newBoard isMaximizing i bestScore)
  show ?case
  proof (cases "i < length newBoard \<and> newBoard ! i = None")
    case True
    then have same: "newBoard[i := None] = newBoard"
      by (metis list_update_id)
    from True 2 show ?thesis
      by (subst minimax_loop.simps) (simp add: Let_def same)
  next
    case False
    with 2 show ?thesis
      by (subst minimax_loop.simps) auto
  qed
qed

text \<open>
  C10. \<open>minimax\<close> places a mark in the array it is given and erases it again after
  each recursive call; when the call returns, the array (the second component of the
  model's result) has exactly the contents it had at the call, for every array and
  either value of the flag.
\<close>

theorem minimax_restores_board: "snd (minimax newBoard isMaximizing) = newBoard"
  by (rule minimax_board(1))

theorem minimax_restores_board_witness:
  "minimax [Some MarkX, Some MarkO, Some MarkX, Some MarkO, Some MarkX, Some MarkO,
            None, None, None] True
   = (Fin (- 1), [Some MarkX, Some MarkO, Some MarkX, Some MarkO, Some MarkX, Some MarkO,
            None, None, None])"
proof -
  have "fst (minimax [Some MarkX, Some MarkO, Some MarkX, Some MarkO, Some MarkX, Some MarkO,
            None, None, None] True) = Fin (- 1)"
    by code_simp
  then show ?thesis
    using minimax_restores_board [of "[Some MarkX, Some MarkO, Some MarkX, Some MarkO,
      Some MarkX, Some MarkO, None, None, None]" True]
    by (simp add: prod_eq_iff)
qed

section \<open>\<open>checkWinner\<close> against the eight lines\<close>

lemma winningCombinations_lines: "winningCombinations = rows @ columns @ diagonals"
  by (simp add: winningCombinations_def rows_def columns_def diagonals_def upt_rec)

lemma winningCombinations_bound:
  "(i, j, k) \<in> set winningCombinations \<Longrightarrow> i < 9 \<and> j < 9 \<and> k < 9"
  by (auto simp add: winningCombinations_def)

lemma checkWinner_loop_Some:
  "checkWinner_loop b ls = Some m \<Longrightarrow>
   \<exists>(i, j, k)\<in>set ls. cell_at b i = Some m \<and> cell_at b j = Some m \<and> cell_at b k = Some m"
  by (induction b ls rule: checkWinner_loop.induct) (auto split: if_splits)

lemma checkWinner_loop_None:
  "checkWinner_loop b ls = None \<Longrightarrow> (i, j, k) \<in> set ls \<Longrightarrow>
   \<not> (cell_at b i = Some m \<and> cell_at b j = Some m \<and> cell_at b k = Some m)"
  by (induction b ls rule: checkWinner_loop.induct) (auto split: if_splits)

lemma line_won_cell_at:
  assumes "length b = 9" and "(i, j, k) \<in> set winningCombinations"
  shows "line_won b m (i, j, k) \<longleftrightarrow>
         cell_at b i = Some m \<and> cell_at b j = Some m \<and> cell_at b k = Some m"
  using winningCombinations_bound [OF assms(2)] assms(1)
  by (simp add: line_won_def cell_at_def)

lemma checkWinner_loop_has_line:
  assumes "length b = 9" and "checkWinner_loop b winningCombinations = Some m"
  shows "has_line b m"
proof -
  from checkWinner_loop_Some [OF assms(2)] obtain i j k where
    l: "(i, j, k) \<in> set winningCombinations"
    and c: "cell_at b i = Some m \<and> cell_at b j = Some m \<and> cell_at b k = Some m"
    by auto
  from c have "line_won b m (i, j, k)"
    by (simp add: line_won_cell_at [OF assms(1) l])
  with l show ?thesis
    unfolding has_line_def list_ex_iff winningCombinations_lines [symmetric] by blast
qed

lemma checkWinner_loop_no_line:
  assumes "length b = 9" and "checkWinner_loop b winningCombinations = None"
  shows "\<not> has_line b m"
proof
  assume "has_line b m"
  then obtain i j k where l: "(i, j, k) \<in> set winningCombinations"
    and w: "line_won b m (i, j, k)"
    unfolding has_line_def list_ex_iff winningCombinations_lines [symmetric] by auto
  from w have "cell_at b i = Some m \<and> cell_at b j = Some m \<and> cell_at b k = Some m"
    by (simp add: line_won_cell_at [OF assms(1) l])
  with checkWinner_loop_None [OF assms(2) l] show False by blast
qed

lemma checkWinner_loop_first:
  assumes "n < length ls"
    and "case ls ! n of (i, j, k) \<Rightarrow>
           cell_at b i = Some m \<and> cell_at b j = Some m \<and> cell_at b k = Some m"
    and "\<forall>n'<n. \<forall>m'. \<not> (case ls ! n' of (i, j, k) \<Rightarrow>
           cell_at b i = Some m' \<and> cell_at b j = Some m' \<and> cell_at b k = Some m')"
  shows "checkWinner_loop b ls = Some m"
  using assms
proof (induction b ls arbitrary: n rule: checkWinner_loop.induct)
  case (1 currentBoard)
  then show ?case by simp
next
  case (2 currentBoard a b c rest)
  show ?case
  proof (cases n)
    case 0
    with 2(3) show ?thesis by simp
  next
    case (Suc k)
    from 2(4) Suc have no0: "\<not> (cell_at currentBoard a \<noteq> None
        \<and> cell_at currentBoard a = cell_at currentBoard b
        \<and> cell_at currentBoard a = cell_at currentBoard c)"
      by (auto simp del: not_None_eq)
    have "checkWinner_loop currentBoard rest = Some m"
    proof (rule 2(1) [OF no0, of k])
      show "k < length rest" using 2(2) Suc by simp
      show "case rest ! k of (i, j, k) \<Rightarrow>
              cell_at currentBoard i = Some m \<and> cell_at currentBoard j = Some m
              \<and> cell_at currentBoard k = Some m"
        using 2(3) Suc by simp
      show "\<forall>n'<k. \<forall>m'. \<not> (case rest ! n' of (i, j, k) \<Rightarrow>
              cell_at currentBoard i = Some m' \<and> cell_at currentBoard j = Some m'
              \<and> cell_at currentBoard k = Some m')"
        using 2(4) Suc by auto
    qed
    moreover have "checkWinner_loop currentBoard ((a, b, c) # rest)
        = checkWinner_loop currentBoard rest"
      by (subst checkWinner_loop.simps) (rule if_not_P [OF no0])
    ultimately show ?thesis by simp
  qed
qed

text \<open>
  C2. For every board of nine cells: if one of the eight lines (three rows, three
  columns, two diagonals) holds three equal marks, \<open>checkWinner\<close> returns a mark
  \<open>m\<close> that holds such a line; it is the mark of the first complete line in the
  order rows, columns, diagonals, hence \<open>m\<close> itself whenever \<open>m\<close> is the only mark
  with a complete line. If no line is complete and all nine cells are taken it returns
  \<open>Tie\<close>; if no line is complete and a cell is empty it returns \<open>null\<close>.
\<close>

theorem checkWinner_spec:
  assumes "length b = 9"
  shows "(has_line b MarkX \<or> has_line b MarkO \<longrightarrow>
            (\<exists>m. checkWinner b = Some (Winner m) \<and> has_line b m))
       \<and> (\<forall>m. has_line b m \<and> (\<forall>m'. m' \<noteq> m \<longrightarrow> \<not> has_line b m') \<longrightarrow>
            checkWinner b = Some (Winner m))
       \<and> (\<forall>m n. n < 8 \<and> line_won b m ((rows @ columns @ diagonals) ! n)
               \<and> (\<forall>n'<n. \<forall>m'. \<not> line_won b m' ((rows @ columns @ diagonals) ! n')) \<longrightarrow>
            checkWinner b = Some (Winner m))
       \<and> (\<not> has_line b MarkX \<and> \<not> has_line b MarkO \<and> (\<forall>i<9. b ! i \<noteq> None) \<longrightarrow>
            checkWinner b = Some Tie)
       \<and> (\<not> has_line b MarkX \<and> \<not> has_line b MarkO \<and> (\<exists>i<9. b ! i = None) \<longrightarrow>
            checkWinner b = None)"
proof -
  have len: "length winningCombinations = 8"
    by (simp add: winningCombinations_def)
  have first: "checkWinner b = Some (Winner m)"
    if n: "n < 8" and w: "line_won b m ((rows @ columns @ diagonals) ! n)"
      and no: "\<forall>n'<n. \<forall>m'. \<not> line_won b m' ((rows @ columns @ diagonals) ! n')"
    for m n
  proof -
    have cell: "line_won b m' (winningCombinations ! k) \<longleftrightarrow>
        (case winningCombinations ! k of (i, j, k) \<Rightarrow>
           cell_at b i = Some m' \<and> cell_at b j = Some m' \<and> cell_at b k = Some m')"
      if "k < 8" for k m'
    proof -
      obtain i j l where e: "winningCombinations ! k = (i, j, l)"
        by (cases "winningCombinations ! k") auto
      then have "(i, j, l) \<in> set winningCombinations"
        using that len by (metis nth_mem)
      from line_won_cell_at [OF assms this] e show ?thesis by simp
    qed
    have "checkWinner_loop b winningCombinations = Some m"
    proof (rule checkWinner_loop_first [of n])
      show "n < length winningCombinations" using n len by simp
      show "case winningCombinations ! n of (i, j, k) \<Rightarrow>
              cell_at b i = Some m \<and> cell_at b j = Some m \<and> cell_at b k = Some m"
        using w cell [OF n] by (simp add: winningCombinations_lines)
      show "\<forall>n'<n. \<forall>m'. \<not> (case winningCombinations ! n' of (i, j, k) \<Rightarrow>
              cell_at b i = Some m' \<and> cell_at b j = Some m' \<and> cell_at b k = Some m')"
        using no n cell by (simp add: winningCombinations_lines)
    qed
    then show ?thesis by (simp add: checkWinner_def)
  qed
  show ?thesis
  proof (cases "checkWinner_loop b winningCombinations")
    case None
    have full: "list_all (\<lambda>c. c \<noteq> None) b \<longleftrightarrow> (\<forall>i<9. b ! i \<noteq> None)"
      using assms by (simp add: list_all_length)
    have noline: "\<not> has_line b m" for m
      by (rule checkWinner_loop_no_line [OF assms None])
    have "\<not> line_won b m ((rows @ columns @ diagonals) ! n)" if "n < 8" for m n
    proof
      assume "line_won b m ((rows @ columns @ diagonals) ! n)"
      then have "has_line b m"
        unfolding has_line_def list_ex_iff
        using that len by (metis winningCombinations_lines nth_mem)
      with noline show False by blast
    qed
    with None full noline show ?thesis
      by (auto simp add: checkWinner_def)
  next
    case (Some m)
    have hl: "has_line b m"
      by (rule checkWinner_loop_has_line [OF assms Some])
    have cw: "checkWinner b = Some (Winner m)"
      using Some by (simp add: checkWinner_def)
    have "m' = m" if "has_line b m' \<and> (\<forall>m''. m'' \<noteq> m' \<longrightarrow> \<not> has_line b m'')" for m'
      using that hl by metis
    moreover have "has_line b MarkX \<or> has_line b MarkO"
      using hl by (cases m) auto
    ultimately show ?thesis
      using hl cw first by (intro conjI allI impI) (auto simp only:)
  qed
qed

theorem checkWinner_spec_witness:
  "has_line [Some MarkO, Some MarkX, None, Some MarkO, Some MarkX, None, Some MarkO, None, Some MarkX] MarkO
   \<and> \<not> has_line [Some MarkO, Some MarkX, None, Some MarkO, Some MarkX, None, Some MarkO, None, Some MarkX] MarkX
   \<and> checkWinner [Some MarkO, Some MarkX, None, Some MarkO, Some MarkX, None, Some MarkO, None, Some MarkX]
       = Some (Winner MarkO)
   \<and> \<not> has_line [Some MarkX, Some MarkO, Some MarkX, Some MarkX, Some MarkO, Some MarkO,
                   Some MarkO, Some MarkX, Some MarkX] MarkX
   \<and> \<not> has_line [Some MarkX, Some MarkO, Some MarkX, Some MarkX, Some MarkO, Some MarkO,
                   Some MarkO, Some MarkX, Some MarkX] MarkO
   \<and> checkWinner [Some MarkX, Some MarkO, Some MarkX, Some MarkX, Some MarkO, Some MarkO,
                  Some MarkO, Some MarkX, Some MarkX] = Some Tie
   \<and> \<not> has_line [Some MarkX, Some MarkO, None, None, Some MarkX, None, None, None, None] MarkX
   \<and> \<not> has_line [Some MarkX, Some MarkO, None, None, Some MarkX, None, None, None, None] MarkO
   \<and> checkWinner [Some MarkX, Some MarkO, None, None, Some MarkX, None, None, None, None] = None"
proof -
  let ?w = "[Some MarkO, Some MarkX, None, Some MarkO, Some MarkX, None, Some MarkO, None, Some MarkX]"
  let ?t = "[Some MarkX, Some MarkO, Some MarkX, Some MarkX, Some MarkO, Some MarkO,
             Some MarkO, Some MarkX, Some MarkX]"
  let ?p = "[Some MarkX, Some MarkO, None, None, Some MarkX, None, None, None, None]"
  have o: "has_line ?w MarkO" by code_simp
  have x: "\<not> has_line ?w MarkX" by code_simp
  have "\<forall>m'. m' \<noteq> MarkO \<longrightarrow> \<not> has_line ?w m'"
    using x by (metis mark.exhaust)
  with checkWinner_spec [of ?w] o have w: "checkWinner ?w = Some (Winner MarkO)"
    by simp
  have tx: "\<not> has_line ?t MarkX" and to: "\<not> has_line ?t MarkO" by code_simp+
  have "list_all (\<lambda>c. c \<noteq> None) ?t" by simp
  then have "\<forall>i<length ?t. ?t ! i \<noteq> None" by (simp only: list_all_length)
  moreover have "length ?t = 9" by simp
  ultimately have "\<forall>i<9. ?t ! i \<noteq> None" by (simp only:)
  with checkWinner_spec [of ?t] tx to have t: "checkWinner ?t = Some Tie"
    by simp
  have px: "\<not> has_line ?p MarkX" and po: "\<not> has_line ?p MarkO" by code_simp+
  have "\<exists>i<9. ?p ! i = None"
    by (rule exI [of _ 2]) simp
  with checkWinner_spec [of ?p] px po have p: "checkWinner ?p = None"
    by simp
  from o x w tx to t px po p show ?thesis by blast
qed

section \<open>The score of \<open>minimax\<close> and what the computer can force\<close>

lemma minimax_loop_fold:
  "fst (minimax_loop b f i best) =
   fold (\<lambda>j acc. if f then max (child_score b f j) acc else min (child_score b f j) acc)
        (filter (\<lambda>j. b ! j = None) [i..<length b]) best"
proof (induction "length b - i" arbitrary: i best)
  case 0
  then show ?case by (subst minimax_loop.simps) simp
next
  case (Suc n)
  then have i: "i < length b" and n: "n = length b - Suc i" by auto
  have upt: "[i..<length b] = i # [Suc i..<length b]"
    using i by (simp add: upt_conv_Cons)
  show ?case
  proof (cases "b ! i = None")
    case True
    then have same: "b[i := None] = b" by (metis list_update_id)
    have "minimax_loop b f i best =
          minimax_loop b f (Suc i)
            (if f then max (child_score b f i) best else min (child_score b f i) best)"
      using i True
      by (subst minimax_loop.simps) (simp add: Let_def minimax_board same child_score_def)
    then show ?thesis
      using True Suc.hyps(1) [OF n] by (simp add: upt)
  next
    case False
    have "minimax_loop b f i best = minimax_loop b f (Suc i) best"
      using i False
      by (subst minimax_loop.simps) (simp del: not_None_eq)
    then show ?thesis
      using False Suc.hyps(1) [OF n] by (simp add: upt del: not_None_eq)
  qed
qed

lemma minimax_unfold:
  "fst (minimax b f) =
     (case checkWinner b of
        Some r \<Rightarrow> Fin (result_score r)
      | None \<Rightarrow>
          fold (\<lambda>j acc. if f then max (child_score b f j) acc else min (child_score b f j) acc)
               (emptySquares b) (if f then NegInf else PosInf))"
  by (subst minimax.simps)
     (simp add: minimax_loop_fold emptySquares_def result_score_def
        split: option.splits result.splits mark.splits)

lemma le_fold_max:
  "x \<le> fold (\<lambda>j acc. max (g j) acc) js (a::jsnum) \<longleftrightarrow> x \<le> a \<or> (\<exists>j\<in>set js. x \<le> g j)"
  by (induction js arbitrary: a) (auto simp add: le_max_iff_disj)

lemma le_fold_min:
  "x \<le> fold (\<lambda>j acc. min (g j) acc) js (a::jsnum) \<longleftrightarrow> x \<le> a \<and> (\<forall>j\<in>set js. x \<le> g j)"
  by (induction js arbitrary: a) auto

lemma minimax_forces:
  "Fin t \<le> fst (minimax b f) \<longleftrightarrow>
   forces (\<lambda>r. t \<le> result_score r) b (if f then MarkO else MarkX)"
proof (induction "count_list b None" arbitrary: b f rule: less_induct)
  case less
  show ?case
  proof (cases "checkWinner b")
    case (Some r)
    then show ?thesis
      by (subst forces.simps) (simp add: minimax_unfold)
  next
    case None
    have IH: "\<And>j g. j \<in> set (emptySquares b) \<Longrightarrow>
        Fin t \<le> child_score b g j \<longleftrightarrow>
        forces (\<lambda>r. t \<le> result_score r) (b[j := Some (if g then MarkO else MarkX)])
          (if g then MarkX else MarkO)"
      using less [of "b[j := Some (if g then MarkO else MarkX)]" "\<not> g" for j g]
      by (auto simp add: child_score_def emptySquares_set count_list_update_less)
    show ?thesis
    proof (cases f)
      case True
      then show ?thesis
        using None IH [of _ True]
        by (subst forces.simps)
           (simp add: minimax_unfold le_fold_max list_ex_iff)
    next
      case False
      then show ?thesis
        using None IH [of _ False]
        by (subst forces.simps)
           (simp add: minimax_unfold le_fold_min list_all_iff)
    qed
  qed
qed


lemma emptySquares_sorted: "sorted (emptySquares b)" "distinct (emptySquares b)"
  by (simp_all add: emptySquares_def sorted_wrt_filter)

lemma checkWinner_None_empty: "checkWinner b = None \<Longrightarrow> emptySquares b \<noteq> []"
  by (auto simp add: checkWinner_def emptySquares_def filter_empty_conv list_all_length
      split: option.splits if_splits)

lemma fold_max_in: "fold (\<lambda>j acc. max (g j) acc) js (a::jsnum) \<in> insert a (g ` set js)"
  by (induction js arbitrary: a) (auto simp add: max_def)

lemma fold_min_in: "fold (\<lambda>j acc. min (g j) acc) js (a::jsnum) \<in> insert a (g ` set js)"
  by (induction js arbitrary: a) (auto simp add: min_def)

lemma minimax_finite: "\<exists>v. fst (minimax b f) = Fin v \<and> - 1 \<le> v \<and> v \<le> 1"
proof (induction "count_list b None" arbitrary: b f rule: less_induct)
  case less
  show ?case
  proof (cases "checkWinner b")
    case (Some r)
    then show ?thesis
      by (simp add: minimax_unfold result_score_def split: result.splits mark.splits)
  next
    case None
    let ?S = "{x. \<exists>v. x = Fin v \<and> - 1 \<le> v \<and> v \<le> 1}"
    have IH: "child_score b f j \<in> ?S" if "j \<in> set (emptySquares b)" for j
      using that less [of "b[j := Some (if f then MarkO else MarkX)]" "\<not> f"]
      by (auto simp add: child_score_def emptySquares_set count_list_update_less)
    from checkWinner_None_empty [OF None] obtain j0 where j0: "j0 \<in> set (emptySquares b)"
      by (cases "emptySquares b") auto
    from IH [OF j0] obtain v0 where v0: "child_score b f j0 = Fin v0" by auto
    show ?thesis
    proof (cases f)
      case True
      let ?r = "fold (\<lambda>j acc. max (child_score b True j) acc) (emptySquares b) NegInf"
      have "child_score b True j0 \<le> ?r" using j0 by (auto simp add: le_fold_max)
      then have "?r \<noteq> NegInf" using v0 True by auto
      moreover have "?r \<in> insert NegInf (child_score b True ` set (emptySquares b))"
        by (rule fold_max_in)
      ultimately have "?r \<in> ?S" using IH True by auto
      then show ?thesis using None True by (simp add: minimax_unfold)
    next
      case False
      let ?r = "fold (\<lambda>j acc. min (child_score b False j) acc) (emptySquares b) PosInf"
      have "\<not> PosInf \<le> child_score b False j0" using v0 False by simp
      then have "\<not> PosInf \<le> ?r" using j0 by (auto simp add: le_fold_min)
      then have "?r \<noteq> PosInf" by auto
      moreover have "?r \<in> insert PosInf (child_score b False ` set (emptySquares b))"
        by (rule fold_min_in)
      ultimately have "?r \<in> ?S" using IH False by auto
      then show ?thesis using None False by (simp add: minimax_unfold)
    qed
  qed
qed

lemma child_score_gt_NegInf: "NegInf < child_score b f j"
proof -
  obtain v where "child_score b f j = Fin v"
    using minimax_finite unfolding child_score_def by blast
  then show ?thesis by (simp add: less_jsnum_def)
qed

lemma computerMove_loop_child:
  "computerMove_loop b (i # rest) bestScore move =
     (if bestScore < child_score b True i
      then computerMove_loop b rest (child_score b True i) (Some i)
      else computerMove_loop b rest bestScore move)"
  by (simp add: child_score_def Let_def)

lemma computerMove_loop_choice:
  assumes "sorted es" and "distinct es"
  shows "(\<forall>j\<in>set es. child_score b True j \<le> fst (computerMove_loop b es best mv))
       \<and> best \<le> fst (computerMove_loop b es best mv)
       \<and> ((\<exists>j\<in>set es. best < child_score b True j) \<longrightarrow>
            (\<exists>m\<in>set es. snd (computerMove_loop b es best mv) = Some m
               \<and> child_score b True m = fst (computerMove_loop b es best mv)
               \<and> (\<forall>j\<in>set es. j < m \<longrightarrow> child_score b True j < child_score b True m)))
       \<and> (\<not> (\<exists>j\<in>set es. best < child_score b True j) \<longrightarrow>
            computerMove_loop b es best mv = (best, mv))"
  using assms
proof (induction es arbitrary: best mv)
  case Nil
  then show ?case by simp
next
  case (Cons i rest)
  then have sd: "sorted rest" "distinct rest" and small: "\<forall>j\<in>set rest. i < j"
    by (auto simp add: order_less_le)
  let ?g = "child_score b True"
  show ?case
  proof (cases "best < ?g i")
    case True
    note IH = Cons.IH [OF sd, of "?g i" "Some i"]
    have eq: "computerMove_loop b (i # rest) best mv = computerMove_loop b rest (?g i) (Some i)"
      using True by (simp only: computerMove_loop_child if_True)
    show ?thesis
    proof (cases "\<exists>j\<in>set rest. ?g i < ?g j")
      case True
      with IH obtain m where m: "m \<in> set rest"
        "snd (computerMove_loop b rest (?g i) (Some i)) = Some m"
        "?g m = fst (computerMove_loop b rest (?g i) (Some i))"
        "\<forall>j\<in>set rest. j < m \<longrightarrow> ?g j < ?g m"
        by blast
      from True IH m have "?g i < ?g m"
        by (metis less_le_trans)
      with m IH \<open>best < ?g i\<close> show ?thesis
        unfolding eq by (auto intro: less_imp_le order_trans)
    next
      case False
      with IH have "computerMove_loop b rest (?g i) (Some i) = (?g i, Some i)" by blast
      with False \<open>best < ?g i\<close> small show ?thesis
        unfolding eq by (auto simp add: not_less)
    qed
  next
    case False
    note IH = Cons.IH [OF sd, of best mv]
    have eq: "computerMove_loop b (i # rest) best mv = computerMove_loop b rest best mv"
      using False by (simp only: computerMove_loop_child if_False)
    show ?thesis
    proof (cases "\<exists>j\<in>set rest. best < ?g j")
      case True
      with IH obtain m where m: "m \<in> set rest"
        "snd (computerMove_loop b rest best mv) = Some m"
        "?g m = fst (computerMove_loop b rest best mv)"
        "\<forall>j\<in>set rest. j < m \<longrightarrow> ?g j < ?g m"
        by blast
      from True IH m have "best < ?g m"
        by (metis less_le_trans)
      with False have "?g i < ?g m" by (metis not_less le_less_trans)
      with m IH False True show ?thesis
        unfolding eq by (auto simp add: not_less)
    next
      case F2: False
      with IH have "computerMove_loop b rest best mv = (best, mv)" by blast
      with False F2 show ?thesis
        unfolding eq by (auto simp add: not_less)
    qed
  qed
qed

lemma bestMove_choice:
  assumes "emptySquares b \<noteq> []"
  shows "\<exists>m. bestMove b = Some m \<and> m < length b \<and> b ! m = None
       \<and> (\<forall>j<length b. b ! j = None \<longrightarrow> child_score b True j \<le> child_score b True m)
       \<and> (\<forall>j<m. b ! j = None \<longrightarrow> child_score b True j < child_score b True m)"
proof -
  from assms obtain j0 where j0: "j0 \<in> set (emptySquares b)"
    by (cases "emptySquares b") auto
  then have ex: "\<exists>j\<in>set (emptySquares b). NegInf < child_score b True j"
    using child_score_gt_NegInf by blast
  from computerMove_loop_choice [OF emptySquares_sorted, where b = b and best = NegInf and mv = None] ex
  obtain m where m: "m \<in> set (emptySquares b)" "bestMove b = Some m"
    "child_score b True m = fst (computerMove_loop b (emptySquares b) NegInf None)"
    "\<forall>j\<in>set (emptySquares b). j < m \<longrightarrow> child_score b True j < child_score b True m"
    and le: "\<forall>j\<in>set (emptySquares b).
       child_score b True j \<le> fst (computerMove_loop b (emptySquares b) NegInf None)"
    unfolding bestMove_def by blast
  from m le show ?thesis
    by (auto simp add: emptySquares_set)
qed

lemma bestMove_None: "emptySquares b = [] \<Longrightarrow> bestMove b = None"
  by (simp add: bestMove_def)



lemma forces_child:
  "forces (\<lambda>r. t \<le> result_score r) (b[j := Some MarkO]) MarkX \<longleftrightarrow> Fin t \<le> child_score b True j"
  using minimax_forces [of t "b[j := Some MarkO]" False]
  by (simp add: child_score_def)

lemma forces_bestMove:
  assumes "checkWinner b = None" and "forces (\<lambda>r. t \<le> result_score r) b MarkO"
    and "bestMove b = Some m"
  shows "forces (\<lambda>r. t \<le> result_score r) (b[m := Some MarkO]) MarkX"
proof -
  from assms(1,2) obtain j where j: "j \<in> set (emptySquares b)"
    and fj: "forces (\<lambda>r. t \<le> result_score r) (b[j := Some MarkO]) MarkX"
    by (subst (asm) forces.simps) (auto simp add: list_ex_iff)
  from j have ne: "emptySquares b \<noteq> []" by auto
  from bestMove_choice [OF ne] assms(3) j
  have "child_score b True j \<le> child_score b True m"
    by (auto simp add: emptySquares_set)
  moreover from fj have "Fin t \<le> child_score b True j"
    by (simp add: forces_child)
  ultimately show ?thesis
    by (simp add: forces_child)
qed

lemma forces_engine:
  "forces (\<lambda>r. t \<le> result_score r) b mover \<Longrightarrow>
   engine_secures (\<lambda>r. t \<le> result_score r) b mover"
proof (induction "count_list b None" arbitrary: b mover rule: less_induct)
  case less
  show ?case
  proof (cases "checkWinner b")
    case (Some r)
    with less.prems show ?thesis
      by (subst engine_secures.simps, subst (asm) forces.simps) simp
  next
    case None
    show ?thesis
    proof (cases mover)
      case MarkO
      from checkWinner_None_empty [OF None] bestMove_choice obtain m where
        m: "bestMove b = Some m" "m < length b" "b ! m = None"
        by blast
      from forces_bestMove [OF None _ m(1)] less.prems MarkO
      have "forces (\<lambda>r. t \<le> result_score r) (b[m := Some MarkO]) MarkX" by simp
      then have "engine_secures (\<lambda>r. t \<le> result_score r) (b[m := Some MarkO]) MarkX"
        using m by (intro less.hyps) (simp_all add: count_list_update_less)
      with None MarkO m show ?thesis
        by (subst engine_secures.simps) simp
    next
      case MarkX
      from less.prems None MarkX
      have all: "\<forall>i\<in>set (emptySquares b).
          forces (\<lambda>r. t \<le> result_score r) (b[i := Some MarkX]) MarkO"
        by (subst (asm) forces.simps) (simp add: list_all_iff)
      have "engine_secures (\<lambda>r. t \<le> result_score r) (b[i := Some MarkX]) MarkO"
        if "i \<in> set (emptySquares b)" for i
        using that all
        by (intro less.hyps) (simp_all add: emptySquares_set count_list_update_less)
      with None MarkX show ?thesis
        by (subst engine_secures.simps) (simp add: list_all_iff)
    qed
  qed
qed

lemma human_forces_win_iff:
  "human_forces_win b mover \<longleftrightarrow> \<not> forces (\<lambda>r. r \<noteq> Winner MarkX) b mover"
proof (induction "count_list b None" arbitrary: b mover rule: less_induct)
  case less
  show ?case
  proof (cases "checkWinner b")
    case (Some r)
    then show ?thesis
      by (subst human_forces_win.simps, subst forces.simps) simp
  next
    case None
    have IH: "human_forces_win (b[i := Some k]) mv \<longleftrightarrow>
        \<not> forces (\<lambda>r. r \<noteq> Winner MarkX) (b[i := Some k]) mv"
      if "i \<in> set (emptySquares b)" for i k mv
      using that by (intro less.hyps) (simp add: emptySquares_set count_list_update_less)
    show ?thesis
    proof (cases mover)
      case MarkX
      with None IH show ?thesis
        by (subst human_forces_win.simps, subst forces.simps)
           (simp add: list_ex_iff list_all_iff)
    next
      case MarkO
      with None IH show ?thesis
        by (subst human_forces_win.simps, subst forces.simps)
           (simp add: list_ex_iff list_all_iff)
    qed
  qed
qed

lemma win_threshold: "(\<lambda>r. 1 \<le> result_score r) = (\<lambda>r. r = Winner MarkO)"
  by (rule ext) (simp add: result_score_def split: result.splits mark.splits)

lemma draw_threshold: "(\<lambda>r. 0 \<le> result_score r) = (\<lambda>r. r \<noteq> Winner MarkX)"
  by (rule ext) (simp add: result_score_def split: result.splits mark.splits)

lemma plan_secures_forces: "plan_secures P pl b mover \<Longrightarrow> forces P b mover"
proof (induction P pl b mover rule: plan_secures.induct)
  case (1 P pl b mover)
  show ?case
  proof (cases "checkWinner b")
    case (Some r)
    with "1.prems" show ?thesis
      by (subst forces.simps, subst (asm) plan_secures.simps) simp
  next
    case None
    show ?thesis
    proof (cases pl)
      case Done
      with None "1.prems" show ?thesis
        by (subst (asm) plan_secures.simps) simp
    next
      case (Reply m p)
      with None "1.prems" have mv: "mover = MarkO" and m: "m < length b" "b ! m = None"
        and p: "plan_secures P p (b[m := Some MarkO]) MarkX"
        by (subst (asm) plan_secures.simps, simp)+
      from "1.IH"(1) [OF None Reply p] m have "\<exists>i\<in>set (emptySquares b).
          forces P (b[i := Some MarkO]) MarkX"
        by (auto simp add: emptySquares_set)
      with None mv show ?thesis
        by (subst forces.simps) (simp add: list_ex_iff)
    next
      case (Branch ps)
      with None "1.prems" have mv: "mover = MarkX" and l: "length ps = length (emptySquares b)"
        and a: "\<forall>k<length ps.
          plan_secures P (ps ! k) (b[emptySquares b ! k := Some MarkX]) MarkO"
        by (subst (asm) plan_secures.simps, simp add: list_all_iff)+
      have "forces P (b[i := Some MarkX]) MarkO" if "i \<in> set (emptySquares b)" for i
      proof -
        from that obtain k where k: "k < length (emptySquares b)" "emptySquares b ! k = i"
          by (auto simp add: in_set_conv_nth)
        from k(1) l a
        have "plan_secures P (ps ! k) (b[emptySquares b ! k := Some MarkX]) MarkO"
          by simp
        from "1.IH"(2) [OF None Branch, of k, OF _ this] k l show ?thesis by simp
      qed
      with None mv show ?thesis
        by (subst forces.simps) (simp add: list_all_iff)
    qed
  qed
qed

lemma human_first_plan_secures:
  "plan_secures (\<lambda>r. r \<noteq> Winner MarkX) human_first_plan (replicate 9 None) MarkX"
  by code_simp

lemma human_first_engine_secures:
  "engine_secures (\<lambda>r. r \<noteq> Winner MarkX) (replicate 9 None) MarkX"
  using forces_engine [of 0 "replicate 9 None" MarkX]
    plan_secures_forces [OF human_first_plan_secures]
  by (simp only: draw_threshold)

section \<open>The move of \<open>computerMove\<close>\<close>

text \<open>
  C1, as amended. On every board on which \<open>checkWinner\<close> returns \<open>null\<close>,
  \<open>computerMove\<close> finds a move \<open>m\<close> into an empty cell, and: if the computer can force
  a win from the board, it can still force a win after \<open>m\<close>, and wins every game in
  which it goes on playing the moves of \<open>bestMove\<close>; if the computer can force at
  least a draw from the board, the same holds for at least a draw after \<open>m\<close>; and if
  some move into an empty cell does not let the human force a win, \<open>m\<close> does not let
  the human force a win. (On a board from which every move loses, no move can
  guarantee a draw.) In particular, in every game from the empty board in which the
  human moves first and the computer answers with the moves of \<open>bestMove\<close>, the human
  does not win.
\<close>

theorem bestMove_optimal:
  "(checkWinner b = None \<longrightarrow>
      (\<exists>m. bestMove b = Some m \<and> m < length b \<and> b ! m = None
         \<and> (forces (\<lambda>r. r = Winner MarkO) b MarkO \<longrightarrow>
              forces (\<lambda>r. r = Winner MarkO) (b[m := Some MarkO]) MarkX
              \<and> engine_secures (\<lambda>r. r = Winner MarkO) (b[m := Some MarkO]) MarkX)
         \<and> (forces (\<lambda>r. r \<noteq> Winner MarkX) b MarkO \<longrightarrow>
              forces (\<lambda>r. r \<noteq> Winner MarkX) (b[m := Some MarkO]) MarkX
              \<and> engine_secures (\<lambda>r. r \<noteq> Winner MarkX) (b[m := Some MarkO]) MarkX)
         \<and> ((\<exists>i<length b. b ! i = None \<and> \<not> human_forces_win (b[i := Some MarkO]) MarkX) \<longrightarrow>
              \<not> human_forces_win (b[m := Some MarkO]) MarkX)))
   \<and> engine_secures (\<lambda>r. r \<noteq> Winner MarkX) (replicate 9 None) MarkX"
proof (intro conjI impI)
  assume inprogress: "checkWinner b = None"
  from checkWinner_None_empty [OF inprogress] bestMove_choice obtain m where
    m: "bestMove b = Some m" "m < length b" "b ! m = None"
    by blast
  have step: "forces (\<lambda>r. t \<le> result_score r) (b[m := Some MarkO]) MarkX
      \<and> engine_secures (\<lambda>r. t \<le> result_score r) (b[m := Some MarkO]) MarkX"
    if "forces (\<lambda>r. t \<le> result_score r) b MarkO" for t
    using forces_bestMove [OF inprogress that m(1)] forces_engine by blast
  have win: "forces (\<lambda>r. r = Winner MarkO) (b[m := Some MarkO]) MarkX
      \<and> engine_secures (\<lambda>r. r = Winner MarkO) (b[m := Some MarkO]) MarkX"
    if "forces (\<lambda>r. r = Winner MarkO) b MarkO"
    using step [of 1] that by (simp only: win_threshold)
  have draw: "forces (\<lambda>r. r \<noteq> Winner MarkX) (b[m := Some MarkO]) MarkX
      \<and> engine_secures (\<lambda>r. r \<noteq> Winner MarkX) (b[m := Some MarkO]) MarkX"
    if "forces (\<lambda>r. r \<noteq> Winner MarkX) b MarkO"
    using step [of 0] that by (simp only: draw_threshold)
  have nonlosing: "\<not> human_forces_win (b[m := Some MarkO]) MarkX"
    if "\<exists>i<length b. b ! i = None \<and> \<not> human_forces_win (b[i := Some MarkO]) MarkX"
  proof -
    from that obtain i where i: "i \<in> set (emptySquares b)"
      and f: "forces (\<lambda>r. r \<noteq> Winner MarkX) (b[i := Some MarkO]) MarkX"
      by (auto simp add: human_forces_win_iff emptySquares_set)
    then have "forces (\<lambda>r. r \<noteq> Winner MarkX) b MarkO"
      using inprogress by (subst forces.simps) (auto simp add: list_ex_iff)
    from draw [OF this] show ?thesis
      by (simp add: human_forces_win_iff)
  qed
  from m win draw nonlosing
  show "\<exists>m. bestMove b = Some m \<and> m < length b \<and> b ! m = None
         \<and> (forces (\<lambda>r. r = Winner MarkO) b MarkO \<longrightarrow>
              forces (\<lambda>r. r = Winner MarkO) (b[m := Some MarkO]) MarkX
              \<and> engine_secures (\<lambda>r. r = Winner MarkO) (b[m := Some MarkO]) MarkX)
         \<and> (forces (\<lambda>r. r \<noteq> Winner MarkX) b MarkO \<longrightarrow>
              forces (\<lambda>r. r \<noteq> Winner MarkX) (b[m := Some MarkO]) MarkX
              \<and> engine_secures (\<lambda>r. r \<noteq> Winner MarkX) (b[m := Some MarkO]) MarkX)
         \<and> ((\<exists>i<length b. b ! i = None \<and> \<not> human_forces_win (b[i := Some MarkO]) MarkX) \<longrightarrow>
              \<not> human_forces_win (b[m := Some MarkO]) MarkX)"
    by blast
next
  show "engine_secures (\<lambda>r. r \<noteq> Winner MarkX) (replicate 9 None) MarkX"
    by (rule human_first_engine_secures)
qed

theorem bestMove_optimal_witness:
  "checkWinner [Some MarkX, Some MarkX, None, Some MarkO, Some MarkO, None, Some MarkX, None, None]
     = None
   \<and> forces (\<lambda>r. r = Winner MarkO)
       [Some MarkX, Some MarkX, None, Some MarkO, Some MarkO, None, Some MarkX, None, None] MarkO
   \<and> forces (\<lambda>r. r \<noteq> Winner MarkX)
       [Some MarkX, Some MarkX, None, Some MarkO, Some MarkO, None, Some MarkX, None, None] MarkO
   \<and> bestMove [Some MarkX, Some MarkX, None, Some MarkO, Some MarkO, None, Some MarkX, None, None]
     = Some 5
   \<and> forces (\<lambda>r. r = Winner MarkO)
       [Some MarkX, Some MarkX, None, Some MarkO, Some MarkO, Some MarkO, Some MarkX, None, None]
       MarkX
   \<and> engine_secures (\<lambda>r. r = Winner MarkO)
       [Some MarkX, Some MarkX, None, Some MarkO, Some MarkO, Some MarkO, Some MarkX, None, None]
       MarkX
   \<and> engine_secures (\<lambda>r. r \<noteq> Winner MarkX)
       [Some MarkX, Some MarkX, None, Some MarkO, Some MarkO, Some MarkO, Some MarkX, None, None]
       MarkX
   \<and> \<not> human_forces_win
       [Some MarkX, Some MarkX, None, Some MarkO, Some MarkO, Some MarkO, Some MarkX, None, None]
       MarkX"
proof -
  let ?b = "[Some MarkX, Some MarkX, None, Some MarkO, Some MarkO, None, Some MarkX, None, None]"
  have c: "checkWinner ?b = None" by code_simp
  have w: "forces (\<lambda>r. r = Winner MarkO) ?b MarkO" by code_simp
  have d: "forces (\<lambda>r. r \<noteq> Winner MarkX) ?b MarkO" by code_simp
  have m: "bestMove ?b = Some 5" by code_simp
  have n: "\<exists>i<length ?b. ?b ! i = None \<and> \<not> human_forces_win (?b[i := Some MarkO]) MarkX"
  proof (intro exI [of _ 5] conjI)
    show "\<not> human_forces_win (?b[5 := Some MarkO]) MarkX" by code_simp
  qed simp_all
  from bestMove_optimal [of ?b] c m w d n
  have "forces (\<lambda>r. r = Winner MarkO) (?b[5 := Some MarkO]) MarkX
      \<and> engine_secures (\<lambda>r. r = Winner MarkO) (?b[5 := Some MarkO]) MarkX
      \<and> engine_secures (\<lambda>r. r \<noteq> Winner MarkX) (?b[5 := Some MarkO]) MarkX
      \<and> \<not> human_forces_win (?b[5 := Some MarkO]) MarkX"
    by auto
  with c w d m show ?thesis by simp
qed

text \<open>
  The claim as stated fails: on the board below, which alternating moves reach
  (\<open>X\<close> 0, \<open>O\<close> 5, \<open>X\<close> 2, \<open>O\<close> 7, \<open>X\<close> 6), \<open>checkWinner\<close> returns \<open>null\<close> and it is the
  turn of \<open>O\<close>, but \<open>X\<close> threatens three lines at once. \<open>computerMove\<close> plays
  cell 1, after which the computer cannot secure a draw: the human can force a win.
\<close>

theorem bestMove_draw_counterexample:
  "checkWinner [Some MarkX, None, Some MarkX, None, None, Some MarkO, Some MarkX, Some MarkO, None]
     = None
   \<and> turn [Some MarkX, None, Some MarkX, None, None, Some MarkO, Some MarkX, Some MarkO, None]
     = MarkO
   \<and> bestMove [Some MarkX, None, Some MarkX, None, None, Some MarkO, Some MarkX, Some MarkO, None]
     = Some 1
   \<and> \<not> forces (\<lambda>r. r \<noteq> Winner MarkX)
       [Some MarkX, Some MarkO, Some MarkX, None, None, Some MarkO, Some MarkX, Some MarkO, None]
       MarkX
   \<and> human_forces_win
       [Some MarkX, Some MarkO, Some MarkX, None, None, Some MarkO, Some MarkX, Some MarkO, None]
       MarkX"
  by code_simp

text \<open>
  C3. On every board on which \<open>checkWinner\<close> returns \<open>null\<close>, \<open>computerMove\<close> finds a
  move \<open>m\<close> into an empty cell whose score \<open>minimax(newBoard, false)\<close> is maximal among
  the empty cells, and every empty cell with the same score has an index of at least
  \<open>m\<close>: among the moves of maximal score it is the one of smallest index. In
  particular this holds on the all-empty board. The move is a function of the board,
  so it is the same on every run.
\<close>

theorem bestMove_first_maximal:
  "(checkWinner b = None \<longrightarrow>
      (\<exists>m. bestMove b = Some m \<and> m < length b \<and> b ! m = None
         \<and> (\<forall>j<length b. b ! j = None \<longrightarrow>
               fst (minimax (b[j := Some MarkO]) False) \<le> fst (minimax (b[m := Some MarkO]) False))
         \<and> (\<forall>j<length b. b ! j = None
               \<and> fst (minimax (b[j := Some MarkO]) False) = fst (minimax (b[m := Some MarkO]) False)
               \<longrightarrow> m \<le> j)))
   \<and> (\<exists>m. bestMove (replicate 9 None) = Some m \<and> m < 9
         \<and> (\<forall>j<9. fst (minimax ((replicate 9 None)[j := Some MarkO]) False)
                    \<le> fst (minimax ((replicate 9 None)[m := Some MarkO]) False))
         \<and> (\<forall>j<9. fst (minimax ((replicate 9 None)[j := Some MarkO]) False)
                    = fst (minimax ((replicate 9 None)[m := Some MarkO]) False)
               \<longrightarrow> m \<le> j))"
proof -
  have general: "\<exists>m. bestMove c = Some m \<and> m < length c \<and> c ! m = None
         \<and> (\<forall>j<length c. c ! j = None \<longrightarrow>
               fst (minimax (c[j := Some MarkO]) False) \<le> fst (minimax (c[m := Some MarkO]) False))
         \<and> (\<forall>j<length c. c ! j = None
               \<and> fst (minimax (c[j := Some MarkO]) False) = fst (minimax (c[m := Some MarkO]) False)
               \<longrightarrow> m \<le> j)"
    if "checkWinner c = None" for c
  proof -
    from bestMove_choice [OF checkWinner_None_empty [OF that]] obtain m where
      m: "bestMove c = Some m" "m < length c" "c ! m = None"
      and mx: "\<forall>j<length c. c ! j = None \<longrightarrow> child_score c True j \<le> child_score c True m"
      and fs: "\<forall>j<m. c ! j = None \<longrightarrow> child_score c True j < child_score c True m"
      by blast
    have "m \<le> j" if "j < length c" "c ! j = None"
      "child_score c True j = child_score c True m" for j
    proof (rule ccontr)
      assume "\<not> m \<le> j"
      then have "j < m" by simp
      with fs that show False by auto
    qed
    with m mx show ?thesis
      by (auto simp add: child_score_def)
  qed
  have "checkWinner (replicate 9 None) = None" by code_simp
  from general [OF this] have "\<exists>m. bestMove (replicate 9 None) = Some m \<and> m < 9
         \<and> (\<forall>j<9. fst (minimax ((replicate 9 None)[j := Some MarkO]) False)
                    \<le> fst (minimax ((replicate 9 None)[m := Some MarkO]) False))
         \<and> (\<forall>j<9. fst (minimax ((replicate 9 None)[j := Some MarkO]) False)
                    = fst (minimax ((replicate 9 None)[m := Some MarkO]) False)
               \<longrightarrow> m \<le> j)"
    by simp blast
  with general show ?thesis by blast
qed

theorem bestMove_first_maximal_witness:
  "checkWinner [Some MarkX, Some MarkO, Some MarkX, None, Some MarkO, None, None, Some MarkX, None]
     = None
   \<and> bestMove [Some MarkX, Some MarkO, Some MarkX, None, Some MarkO, None, None, Some MarkX, None]
     = Some 3
   \<and> fst (minimax [Some MarkX, Some MarkO, Some MarkX, None, Some MarkO, Some MarkO, None,
                    Some MarkX, None] False)
     \<le> fst (minimax [Some MarkX, Some MarkO, Some MarkX, Some MarkO, Some MarkO, None, None,
                    Some MarkX, None] False)
   \<and> fst (minimax [Some MarkX, Some MarkO, Some MarkX, None, Some MarkO, Some MarkO, None,
                    Some MarkX, None] False) = Fin 0"
proof -
  let ?b = "[Some MarkX, Some MarkO, Some MarkX, None, Some MarkO, None, None, Some MarkX, None]"
  have c: "checkWinner ?b = None" by code_simp
  have m: "bestMove ?b = Some 3" by code_simp
  have v: "fst (minimax (?b[5 := Some MarkO]) False) = Fin 0" by code_simp
  from bestMove_first_maximal [of ?b] c obtain m' where
    m': "bestMove ?b = Some m'"
    and mx: "\<forall>j<length ?b. ?b ! j = None \<longrightarrow>
      fst (minimax (?b[j := Some MarkO]) False) \<le> fst (minimax (?b[m' := Some MarkO]) False)"
    by blast
  from m m' have "m' = 3" by simp
  with mx [rule_format, of 5]
  have "fst (minimax (?b[5 := Some MarkO]) False) \<le> fst (minimax (?b[3 := Some MarkO]) False)"
    by simp
  with c m v show ?thesis by simp
qed

text \<open>
  C9. On the board \<open>X O X / O X O / - - -\<close> \<open>computerMove\<close> plays cell 6, one of the two
  cells 6 and 8 that block a diagonal of \<open>X\<close>. (All three empty cells have the score
  \<open>-1\<close> there, and cell 6 is the first of them.)
\<close>

theorem scenario3_bestMove:
  "bestMove [Some MarkX, Some MarkO, Some MarkX, Some MarkO, Some MarkX, Some MarkO, None, None, None]
     \<in> {Some 6, Some 8}
   \<and> bestMove [Some MarkX, Some MarkO, Some MarkX, Some MarkO, Some MarkX, Some MarkO, None, None, None]
     = Some 6
   \<and> computerMove
       \<lparr>board = [Some MarkX, Some MarkO, Some MarkX, Some MarkO, Some MarkX, Some MarkO, None, None, None],
        isPlayerTurn = False, winner = None, playerScore = 0, aiScore = 0, draws = 0,
        countdown = 0, gameStarted = True, roundReady = True\<rparr>
     = Inr \<lparr>board = [Some MarkX, Some MarkO, Some MarkX, Some MarkO, Some MarkX, Some MarkO,
                     Some MarkO, None, None],
        isPlayerTurn = True, winner = None, playerScore = 0, aiScore = 0, draws = 0,
        countdown = 0, gameStarted = True, roundReady = True\<rparr>"
proof -
  have m: "bestMove [Some MarkX, Some MarkO, Some MarkX, Some MarkO, Some MarkX, Some MarkO,
      None, None, None] = Some 6"
    by code_simp
  then show ?thesis by (simp add: computerMove_def)
qed

section \<open>The flag of \<open>minimax\<close> and the turn derived from the board\<close>

lemma count_list_update_Some:
  "i < length b \<Longrightarrow> b ! i = None \<Longrightarrow>
   count_list (b[i := Some m]) (Some k)
     = (if k = m then Suc (count_list b (Some k)) else count_list b (Some k))"
proof (induction b arbitrary: i)
  case Nil
  then show ?case by simp
next
  case (Cons c b)
  then show ?case by (cases i) auto
qed

lemma flag_matches_turn_player:
  "flag_matches_turn b f \<Longrightarrow> turn b = (if f then MarkO else MarkX)"
  by (simp add: flag_matches_turn_def turn_def split: if_splits)

lemma flag_matches_turn_step:
  "flag_matches_turn b f \<Longrightarrow> i < length b \<Longrightarrow> b ! i = None \<Longrightarrow>
   flag_matches_turn (b[i := Some (if f then MarkO else MarkX)]) (\<not> f)"
  by (simp add: flag_matches_turn_def count_list_update_Some split: if_splits)

lemma fold_min_le:
  "fold (\<lambda>j acc. min (g j) acc) js (a::jsnum) \<le> x \<longleftrightarrow> a \<le> x \<or> (\<exists>j\<in>set js. g j \<le> x)"
  by (induction js arbitrary: a) (auto simp add: min_le_iff_disj)

lemma NegInf_least: "x \<le> NegInf \<longleftrightarrow> x = NegInf"
  by (cases x) auto

lemma PosInf_greatest: "PosInf \<le> x \<longleftrightarrow> x = PosInf"
  by (cases x) auto

lemma le_PosInf: "x \<le> PosInf"
  by (cases x) auto

lemma fold_max_Max:
  assumes "js \<noteq> []"
  shows "fold (\<lambda>j acc. max (g j) acc) js NegInf = Max (g ` set js)"
proof -
  have "x \<le> fold (\<lambda>j acc. max (g j) acc) js NegInf \<longleftrightarrow> x \<le> Max (g ` set js)" for x
  proof -
    from assms obtain j0 where "j0 \<in> set js" by (cases js) auto
    then have "x \<le> NegInf \<Longrightarrow> \<exists>j\<in>set js. x \<le> g j"
      by (auto simp add: NegInf_least)
    then show ?thesis
      using assms by (auto simp add: le_fold_max Max_ge_iff)
  qed
  then show ?thesis by (metis order_refl order_antisym)
qed

lemma fold_min_Min:
  assumes "js \<noteq> []"
  shows "fold (\<lambda>j acc. min (g j) acc) js PosInf = Min (g ` set js)"
proof -
  have "fold (\<lambda>j acc. min (g j) acc) js PosInf \<le> x \<longleftrightarrow> Min (g ` set js) \<le> x" for x
  proof -
    from assms obtain j0 where "j0 \<in> set js" by (cases js) auto
    then have "PosInf \<le> x \<Longrightarrow> \<exists>j\<in>set js. g j \<le> x"
      by (auto simp add: PosInf_greatest le_PosInf)
    then show ?thesis
      using assms by (auto simp add: fold_min_le Min_le_iff)
  qed
  then show ?thesis by (metis order_refl order_antisym)
qed

lemma minimax_spec_score:
  "flag_matches_turn b f \<Longrightarrow> fst (minimax b f) = spec_score b MarkO"
proof (induction "count_list b None" arbitrary: b f rule: less_induct)
  case less
  show ?case
  proof (cases "checkWinner b")
    case (Some r)
    then show ?thesis
      by (subst spec_score.simps)
         (simp add: minimax_unfold result_score_def split: result.splits mark.splits)
  next
    case None
    from checkWinner_None_empty [OF None] have ne: "emptySquares b \<noteq> []" .
    have t: "turn b = (if f then MarkO else MarkX)"
      by (rule flag_matches_turn_player [OF less.prems])
    have IH: "child_score b f j = spec_score (b[j := Some (turn b)]) MarkO"
      if "j \<in> set (emptySquares b)" for j
      unfolding child_score_def t
      using that less.prems
      by (intro less.hyps)
         (simp_all add: emptySquares_set count_list_update_less flag_matches_turn_step)
    then have children:
      "map (\<lambda>i. spec_score (b[i := Some (turn b)]) MarkO) (emptySquares b)
         = map (child_score b f) (emptySquares b)"
      by simp
    have "spec_score b MarkO =
        (let children = map (\<lambda>i. spec_score (b[i := Some (turn b)]) MarkO) (emptySquares b)
         in if turn b = MarkO then Max (set children) else Min (set children))"
      using None by (subst spec_score.simps) simp
    also have "\<dots> = (if f then Max (child_score b f ` set (emptySquares b))
        else Min (child_score b f ` set (emptySquares b)))"
      unfolding children using t by (simp add: Let_def)
    finally have sp: "spec_score b MarkO =
        (if f then Max (child_score b f ` set (emptySquares b))
         else Min (child_score b f ` set (emptySquares b)))" .
    show ?thesis
    proof (cases f)
      case True
      then show ?thesis
        using None ne by (simp add: minimax_unfold sp fold_max_Max)
    next
      case False
      then show ?thesis
        using None ne by (simp add: minimax_unfold sp fold_min_Min)
    qed
  qed
qed

text \<open>
  C7, as amended. \<open>minimax\<close> takes the mark it places from its flag \<open>isMaximizing\<close>
  (\<open>O\<close> when true, \<open>X\<close> when false). Whenever the flag agrees with the marks on the
  board (\<open>X\<close> has one mark more than \<open>O\<close> and the flag is true, or both have as many
  and the flag is false), the mark placed is the one whose turn it is as derived from
  the board, the score is that of the flag-free search of the specification, and the
  flag agrees again in every recursive call. The searches \<open>computerMove\<close> starts on a
  board where \<open>X\<close> has one mark more than \<open>O\<close> are of this kind: it places \<open>O\<close>, whose
  turn it is, and calls \<open>minimax\<close> with an agreeing flag.
\<close>

theorem minimax_follows_derived_turn:
  "(flag_matches_turn b isMaximizing \<longrightarrow>
      (if isMaximizing then MarkO else MarkX) = turn b
      \<and> fst (minimax b isMaximizing) = spec_score b MarkO
      \<and> (\<forall>i<length b. b ! i = None \<longrightarrow>
            flag_matches_turn (b[i := Some (if isMaximizing then MarkO else MarkX)])
              (\<not> isMaximizing)))
   \<and> (mark_difference c = 1 \<longrightarrow>
        turn c = MarkO
        \<and> (\<forall>i<length c. c ! i = None \<longrightarrow> flag_matches_turn (c[i := Some MarkO]) False))"
proof -
  have root: "flag_matches_turn c True" if "mark_difference c = 1"
    using that by (simp add: mark_difference_def flag_matches_turn_def)
  have "turn c = MarkO
      \<and> (\<forall>i<length c. c ! i = None \<longrightarrow> flag_matches_turn (c[i := Some MarkO]) False)"
    if "mark_difference c = 1"
    using flag_matches_turn_player [OF root [OF that]]
      flag_matches_turn_step [OF root [OF that]]
    by simp
  then show ?thesis
    using flag_matches_turn_player [of b isMaximizing] minimax_spec_score [of b isMaximizing]
      flag_matches_turn_step [of b isMaximizing]
    by simp
qed

theorem minimax_follows_derived_turn_witness:
  "flag_matches_turn
     [Some MarkX, Some MarkO, Some MarkX, None, Some MarkO, None, None, Some MarkX, None] True
   \<and> mark_difference
       [Some MarkX, Some MarkO, Some MarkX, None, Some MarkO, None, None, Some MarkX, None] = 1
   \<and> turn [Some MarkX, Some MarkO, Some MarkX, None, Some MarkO, None, None, Some MarkX, None]
     = MarkO
   \<and> fst (minimax
       [Some MarkX, Some MarkO, Some MarkX, None, Some MarkO, None, None, Some MarkX, None] True)
     = Fin 0
   \<and> spec_score
       [Some MarkX, Some MarkO, Some MarkX, None, Some MarkO, None, None, Some MarkX, None] MarkO
     = Fin 0
   \<and> flag_matches_turn
       [Some MarkX, Some MarkO, Some MarkX, Some MarkO, Some MarkO, None, None, Some MarkX, None]
       False"
proof -
  let ?b = "[Some MarkX, Some MarkO, Some MarkX, None, Some MarkO, None, None, Some MarkX, None]"
  have f: "flag_matches_turn ?b True" by code_simp
  have d: "mark_difference ?b = 1" by code_simp
  have v: "fst (minimax ?b True) = Fin 0" by code_simp
  from minimax_follows_derived_turn [of ?b True ?b] f d
  have t: "turn ?b = MarkO" and s: "fst (minimax ?b True) = spec_score ?b MarkO"
    and n: "\<forall>i<length ?b. ?b ! i = None \<longrightarrow> flag_matches_turn (?b[i := Some MarkO]) False"
    by simp_all
  from n [rule_format, of 3] have "flag_matches_turn (?b[3 := Some MarkO]) False" by simp
  with f d t s v show ?thesis by simp
qed

text \<open>
  The claim as stated fails: the search is driven by the flag, not by the board. On
  the board below both marks have four cells, so the derived turn is that of \<open>X\<close>;
  \<open>minimax\<close> called with a true flag places \<open>O\<close> into cell 8 (a tie, score \<open>0\<close>),
  where the flag-free search places \<open>X\<close> (a win of \<open>X\<close>, score \<open>-1\<close>). The search that
  \<open>computerMove\<close> starts on the board \<open>X O X / O X O / - - -\<close> makes this call, after
  \<open>O\<close> in cell 6 and \<open>X\<close> in cell 7.
\<close>

theorem minimax_flag_counterexample:
  "checkWinner
     [Some MarkX, Some MarkO, Some MarkX, Some MarkO, Some MarkX, Some MarkO, Some MarkO,
      Some MarkX, None] = None
   \<and> turn
     [Some MarkX, Some MarkO, Some MarkX, Some MarkO, Some MarkX, Some MarkO, Some MarkO,
      Some MarkX, None] = MarkX
   \<and> fst (minimax
     [Some MarkX, Some MarkO, Some MarkX, Some MarkO, Some MarkX, Some MarkO, Some MarkO,
      Some MarkX, None] True) = Fin 0
   \<and> checkWinner
     [Some MarkX, Some MarkO, Some MarkX, Some MarkO, Some MarkX, Some MarkO, Some MarkO,
      Some MarkX, Some MarkO] = Some Tie
   \<and> spec_score
     [Some MarkX, Some MarkO, Some MarkX, Some MarkO, Some MarkX, Some MarkO, Some MarkO,
      Some MarkX, None] MarkO = Fin (- 1)
   \<and> checkWinner
     [Some MarkX, Some MarkO, Some MarkX, Some MarkO, Some MarkX, Some MarkO, Some MarkO,
      Some MarkX, Some MarkX] = Some (Winner MarkX)"
  by code_simp

section \<open>The game loop keeps the marks balanced\<close>

lemma count_list_replicate_other: "x \<noteq> y \<Longrightarrow> count_list (replicate n x) y = 0"
  by (induction n) auto

lemma mark_difference_X:
  "i < length b \<Longrightarrow> b ! i = None \<Longrightarrow>
   mark_difference (b[i := Some MarkX]) = mark_difference b + 1"
  by (simp add: mark_difference_def count_list_update_Some)

lemma mark_difference_O:
  "i < length b \<Longrightarrow> b ! i = None \<Longrightarrow>
   mark_difference (b[i := Some MarkO]) = mark_difference b - 1"
  by (simp add: mark_difference_def count_list_update_Some)

lemma turn_invariant_initial: "turn_invariant initial"
  by (simp add: turn_invariant_def initial_def mark_difference_def count_list_replicate_other)

lemma turn_invariant_startNewGame: "turn_invariant (startNewGame s)"
  by (simp add: turn_invariant_def startNewGame_def mark_difference_def
      count_list_replicate_other)

lemma turn_invariant_handleClick:
  assumes "turn_invariant s" and "index < length (board s)" and "handleClick s index = Inr s'"
  shows "turn_invariant s'"
proof (cases "cell_at (board s) index \<noteq> None \<or> winner s \<noteq> None \<or> 0 < countdown s
    \<or> \<not> gameStarted s \<or> \<not> roundReady s \<or> \<not> isPlayerTurn s")
  case True
  with assms(3) have "s' = s"
    by (simp add: handleClick_def del: not_None_eq)
  with assms(1) show ?thesis by simp
next
  case False
  then have e: "board s ! index = None" and p: "isPlayerTurn s"
    using assms(2) by (simp_all add: cell_at_def)
  from False assms(2,3)
  have s': "s' = s\<lparr>board := (board s)[index := Some MarkX], isPlayerTurn := False\<rparr>"
    by (simp add: handleClick_def js_assign_def del: not_None_eq)
  from e assms(2) have "index \<in> set (emptySquares (board s))"
    by (simp add: emptySquares_set)
  then have "emptySquares (board s) \<noteq> []" by auto
  with assms(1) p have "mark_difference (board s) = 0"
    by (simp add: turn_invariant_def)
  with e assms(2) show ?thesis
    by (simp add: s' turn_invariant_def mark_difference_X)
qed

lemma turn_invariant_computerMove:
  assumes "turn_invariant s" and "\<not> isPlayerTurn s" and "computerMove s = Inr s'"
  shows "turn_invariant s'"
proof (cases "bestMove (board s)")
  case None
  have "emptySquares (board s) = []"
  proof (rule ccontr)
    assume "emptySquares (board s) \<noteq> []"
    from bestMove_choice [OF this] None show False by simp
  qed
  moreover from None assms(3) have "s' = s\<lparr>isPlayerTurn := True\<rparr>"
    by (simp add: computerMove_def)
  ultimately show ?thesis
    using assms(1,2) by (simp add: turn_invariant_def)
next
  case (Some m)
  from bestMove_Some_empty [OF Some] have m: "m < length (board s)" "board s ! m = None"
    by simp_all
  from Some assms(3)
  have "s' = s\<lparr>board := (board s)[m := Some MarkO], isPlayerTurn := True\<rparr>"
    by (simp add: computerMove_def)
  with assms(1,2) m show ?thesis
    by (simp add: turn_invariant_def mark_difference_O)
qed

lemma turn_invariant_updateWinner: "turn_invariant (updateWinner s r) = turn_invariant s"
  by (simp add: turn_invariant_def updateWinner_def split: result.splits mark.splits)

lemma turn_invariant_fire:
  assumes "turn_invariant s" and "fire s e = Some s'"
  shows "turn_invariant s'"
proof (cases e)
  case StartNewGame
  with assms(2) show ?thesis by (auto simp add: turn_invariant_startNewGame)
next
  case (Click index)
  with assms(2) have "index < length (board s)" and "handleClick s index = Inr s'"
    by (auto split: if_splits sum.splits)
  with assms(1) show ?thesis by (rule turn_invariant_handleClick)
next
  case AiTimer
  with assms(2) have "\<not> isPlayerTurn s" and "computerMove s = Inr s'"
    by (auto split: if_splits sum.splits)
  with assms(1) show ?thesis by (rule turn_invariant_computerMove)
next
  case WinnerEffect
  with assms show ?thesis
    by (auto simp add: turn_invariant_updateWinner split: if_splits option.splits)
next
  case Tick
  with assms show ?thesis
    by (auto simp add: turn_invariant_def split: if_splits)
next
  case Ready
  with assms show ?thesis
    by (auto simp add: turn_invariant_def split: if_splits)
qed

lemma turn_invariant_run:
  "turn_invariant s \<Longrightarrow> run s es = Some s' \<Longrightarrow> turn_invariant s'"
proof (induction es arbitrary: s)
  case Nil
  then show ?case by simp
next
  case (Cons e es)
  then show ?case
    by (auto split: option.splits dest: turn_invariant_fire)
qed

text \<open>
  C8. In every state the game loop reaches from the initial state (the empty board)
  by its own events, \<open>handleClick\<close> on a rendered cell, \<open>computerMove\<close> when the effect
  starts it on the computer's turn, and the others, none of which writes the board
  except \<open>startNewGame\<close>, the count of \<open>X\<close> marks minus the count of \<open>O\<close> marks is 0
  or 1.
\<close>

theorem game_loop_mark_difference:
  assumes "run initial events = Some s"
  shows "mark_difference (board s) = 0 \<or> mark_difference (board s) = 1"
  using turn_invariant_run [OF turn_invariant_initial assms]
  by (auto simp add: turn_invariant_def split: if_splits)

theorem game_loop_mark_difference_witness:
  "run initial [StartNewGame, Tick, Tick, Tick, Ready, Click 4]
     = Some \<lparr>board = [None, None, None, None, Some MarkX, None, None, None, None],
             isPlayerTurn = False, winner = None, playerScore = 0, aiScore = 0, draws = 0,
             countdown = 0, gameStarted = True, roundReady = True\<rparr>
   \<and> mark_difference [None, None, None, None, Some MarkX, None, None, None, None] = 1"
proof -
  have r: "run initial [StartNewGame, Tick, Tick, Tick, Ready, Click 4]
     = Some \<lparr>board = [None, None, None, None, Some MarkX, None, None, None, None],
             isPlayerTurn = False, winner = None, playerScore = 0, aiScore = 0, draws = 0,
             countdown = 0, gameStarted = True, roundReady = True\<rparr>"
    by (simp add: initial_def startNewGame_def handleClick_def cell_at_def js_assign_def
        eval_nat_numeral)
  have "mark_difference [None, None, None, None, Some MarkX, None, None, None, None] \<noteq> 0"
    by (simp add: mark_difference_def)
  with game_loop_mark_difference [OF r] r show ?thesis by simp
qed

section \<open>Rejected moves\<close>

text \<open>
  C4, as amended. For every state and every index whose cell is taken, \<open>handleClick\<close>
  returns without signalling an error and leaves the whole state, the board included,
  as it was. \<open>handleClick\<close> signals no error on any input.
\<close>

theorem handleClick_occupied:
  "(cell_at (board s) index \<noteq> None \<longrightarrow> handleClick s index = Inr s)
   \<and> handleClick s index \<noteq> Inl e"
  by (simp add: handleClick_def del: not_None_eq)

theorem handleClick_occupied_witness:
  "cell_at [Some MarkX, None, None, None, Some MarkO, None, None, None, None] 4 = Some MarkO
   \<and> handleClick
       \<lparr>board = [Some MarkX, None, None, None, Some MarkO, None, None, None, None],
        isPlayerTurn = True, winner = None, playerScore = 0, aiScore = 0, draws = 0,
        countdown = 0, gameStarted = True, roundReady = True\<rparr> 4
     = Inr \<lparr>board = [Some MarkX, None, None, None, Some MarkO, None, None, None, None],
        isPlayerTurn = True, winner = None, playerScore = 0, aiScore = 0, draws = 0,
        countdown = 0, gameStarted = True, roundReady = True\<rparr>"
proof -
  let ?s = "\<lparr>board = [Some MarkX, None, None, None, Some MarkO, None, None, None, None],
        isPlayerTurn = True, winner = None, playerScore = 0, aiScore = 0, draws = 0,
        countdown = 0, gameStarted = True, roundReady = True\<rparr>"
  have c: "cell_at [Some MarkX, None, None, None, Some MarkO, None, None, None, None] 4
      = Some MarkO"
    by (simp add: cell_at_def)
  then have "cell_at (board ?s) 4 \<noteq> None" by simp
  with handleClick_occupied [of ?s 4] have "handleClick ?s 4 = Inr ?s" by blast
  with c show ?thesis by simp
qed

text \<open>
  The claim as stated fails: a click on the taken cell 0 is not answered with
  \<open>InvalidMove\<close>; \<open>handleClick\<close> returns normally, with the state unchanged.
\<close>

theorem handleClick_InvalidMove_counterexample:
  "cell_at (board
       \<lparr>board = [Some MarkX, None, None, None, Some MarkO, None, None, None, None],
        isPlayerTurn = True, winner = None, playerScore = 0, aiScore = 0, draws = 0,
        countdown = 0, gameStarted = True, roundReady = True\<rparr>) 0 = Some MarkX
   \<and> handleClick
       \<lparr>board = [Some MarkX, None, None, None, Some MarkO, None, None, None, None],
        isPlayerTurn = True, winner = None, playerScore = 0, aiScore = 0, draws = 0,
        countdown = 0, gameStarted = True, roundReady = True\<rparr> 0
     \<noteq> Inl InvalidMove
   \<and> handleClick
       \<lparr>board = [Some MarkX, None, None, None, Some MarkO, None, None, None, None],
        isPlayerTurn = True, winner = None, playerScore = 0, aiScore = 0, draws = 0,
        countdown = 0, gameStarted = True, roundReady = True\<rparr> 0
     = Inr \<lparr>board = [Some MarkX, None, None, None, Some MarkO, None, None, None, None],
        isPlayerTurn = True, winner = None, playerScore = 0, aiScore = 0, draws = 0,
        countdown = 0, gameStarted = True, roundReady = True\<rparr>"
  by (simp add: handleClick_def cell_at_def)

text \<open>
  C5, as amended. \<open>handleClick\<close> tests the \<open>winner\<close> field of the state, which the
  effect sets once \<open>checkWinner\<close> reports a win or a tie, not the board. For every
  state whose \<open>winner\<close> field is set, and for every state whose board is a tie and
  every index of a cell, \<open>handleClick\<close> returns without signalling an error and
  leaves the state as it was. \<open>handleClick\<close> signals no error on any input.
\<close>

theorem handleClick_game_over:
  "(winner s \<noteq> None \<longrightarrow> handleClick s index = Inr s)
   \<and> (checkWinner (board s) = Some Tie \<and> index < length (board s) \<longrightarrow>
        handleClick s index = Inr s)
   \<and> handleClick s index \<noteq> Inl e"
proof -
  have "cell_at (board s) index \<noteq> None"
    if "checkWinner (board s) = Some Tie" and "index < length (board s)"
    using that
    by (auto simp add: checkWinner_def cell_at_def list_all_length
        split: option.splits if_splits)
  then show ?thesis
    by (auto simp add: handleClick_def simp del: not_None_eq)
qed

theorem handleClick_game_over_witness:
  "checkWinner [Some MarkX, Some MarkO, Some MarkX, Some MarkX, Some MarkO, Some MarkO,
                Some MarkO, Some MarkX, Some MarkX] = Some Tie
   \<and> handleClick
       \<lparr>board = [Some MarkX, Some MarkO, Some MarkX, Some MarkX, Some MarkO, Some MarkO,
                 Some MarkO, Some MarkX, Some MarkX],
        isPlayerTurn = True, winner = None, playerScore = 0, aiScore = 0, draws = 0,
        countdown = 0, gameStarted = True, roundReady = True\<rparr> 7
     = Inr \<lparr>board = [Some MarkX, Some MarkO, Some MarkX, Some MarkX, Some MarkO, Some MarkO,
                 Some MarkO, Some MarkX, Some MarkX],
        isPlayerTurn = True, winner = None, playerScore = 0, aiScore = 0, draws = 0,
        countdown = 0, gameStarted = True, roundReady = True\<rparr>
   \<and> handleClick
       \<lparr>board = [Some MarkX, Some MarkX, None, Some MarkO, Some MarkO, Some MarkO,
                 Some MarkX, None, None],
        isPlayerTurn = True, winner = Some (Winner MarkO), playerScore = 0, aiScore = 1,
        draws = 0, countdown = 0, gameStarted = True, roundReady = True\<rparr> 2
     = Inr \<lparr>board = [Some MarkX, Some MarkX, None, Some MarkO, Some MarkO, Some MarkO,
                 Some MarkX, None, None],
        isPlayerTurn = True, winner = Some (Winner MarkO), playerScore = 0, aiScore = 1,
        draws = 0, countdown = 0, gameStarted = True, roundReady = True\<rparr>"
proof -
  let ?t = "\<lparr>board = [Some MarkX, Some MarkO, Some MarkX, Some MarkX, Some MarkO, Some MarkO,
                 Some MarkO, Some MarkX, Some MarkX],
        isPlayerTurn = True, winner = None, playerScore = 0, aiScore = 0, draws = 0,
        countdown = 0, gameStarted = True, roundReady = True\<rparr>"
  let ?w = "\<lparr>board = [Some MarkX, Some MarkX, None, Some MarkO, Some MarkO, Some MarkO,
                 Some MarkX, None, None],
        isPlayerTurn = True, winner = Some (Winner MarkO), playerScore = 0, aiScore = 1,
        draws = 0, countdown = 0, gameStarted = True, roundReady = True\<rparr>"
  have c: "checkWinner [Some MarkX, Some MarkO, Some MarkX, Some MarkX, Some MarkO, Some MarkO,
                Some MarkO, Some MarkX, Some MarkX] = Some Tie"
    by code_simp
  then have "checkWinner (board ?t) = Some Tie \<and> 7 < length (board ?t)" by simp
  with handleClick_game_over [of ?t 7] have t: "handleClick ?t 7 = Inr ?t" by blast
  have "winner ?w \<noteq> None" by simp
  with handleClick_game_over [of ?w 2] have w: "handleClick ?w 2 = Inr ?w" by blast
  from c t w show ?thesis by simp
qed

text \<open>
  The claim as stated fails. On a tied board whose \<open>winner\<close> field is set, a click
  is not answered with \<open>GameAlreadyOver\<close>: \<open>handleClick\<close> returns normally. And on a
  board that \<open>O\<close> has won, in a state whose \<open>winner\<close> field the effect has not set
  yet, a click on the empty cell 2 places \<open>X\<close> there.
\<close>

theorem handleClick_GameAlreadyOver_counterexample:
  "checkWinner [Some MarkX, Some MarkO, Some MarkX, Some MarkX, Some MarkO, Some MarkO,
                Some MarkO, Some MarkX, Some MarkX] = Some Tie
   \<and> handleClick
       \<lparr>board = [Some MarkX, Some MarkO, Some MarkX, Some MarkX, Some MarkO, Some MarkO,
                 Some MarkO, Some MarkX, Some MarkX],
        isPlayerTurn = True, winner = Some Tie, playerScore = 0, aiScore = 0, draws = 1,
        countdown = 0, gameStarted = True, roundReady = True\<rparr> 0
     \<noteq> Inl GameAlreadyOver
   \<and> checkWinner [Some MarkX, Some MarkX, None, Some MarkO, Some MarkO, Some MarkO,
                  Some MarkX, None, None] = Some (Winner MarkO)
   \<and> handleClick
       \<lparr>board = [Some MarkX, Some MarkX, None, Some MarkO, Some MarkO, Some MarkO,
                 Some MarkX, None, None],
        isPlayerTurn = True, winner = None, playerScore = 0, aiScore = 0, draws = 0,
        countdown = 0, gameStarted = True, roundReady = True\<rparr> 2
     = Inr \<lparr>board = [Some MarkX, Some MarkX, Some MarkX, Some MarkO, Some MarkO, Some MarkO,
                 Some MarkX, None, None],
        isPlayerTurn = False, winner = None, playerScore = 0, aiScore = 0, draws = 0,
        countdown = 0, gameStarted = True, roundReady = True\<rparr>"
proof -
  have "checkWinner [Some MarkX, Some MarkO, Some MarkX, Some MarkX, Some MarkO, Some MarkO,
                Some MarkO, Some MarkX, Some MarkX] = Some Tie"
    by code_simp
  moreover have "checkWinner [Some MarkX, Some MarkX, None, Some MarkO, Some MarkO, Some MarkO,
                  Some MarkX, None, None] = Some (Winner MarkO)"
    by code_simp
  ultimately show ?thesis
    by (simp add: handleClick_def cell_at_def js_assign_def)
qed

text \<open>
  C6, as amended. \<open>computerMove\<close> signals no error on any board. On a board without
  an empty cell, a tied board in particular, it returns normally and leaves the board
  unchanged: the only field it writes is \<open>isPlayerTurn\<close>, which it sets to true.
\<close>

theorem computerMove_no_error:
  "computerMove s \<noteq> Inl e
   \<and> (emptySquares (board s) = [] \<longrightarrow> computerMove s = Inr (s\<lparr>isPlayerTurn := True\<rparr>))
   \<and> (checkWinner (board s) = Some Tie \<longrightarrow> computerMove s = Inr (s\<lparr>isPlayerTurn := True\<rparr>))"
proof -
  have full: "computerMove s = Inr (s\<lparr>isPlayerTurn := True\<rparr>)"
    if "emptySquares (board s) = []"
    using bestMove_None [OF that] by (simp add: computerMove_def)
  have "emptySquares (board s) = []" if "checkWinner (board s) = Some Tie"
    using that
    by (auto simp add: checkWinner_def emptySquares_def filter_empty_conv list_all_length
        split: option.splits if_splits)
  with full have "computerMove s = Inr (s\<lparr>isPlayerTurn := True\<rparr>)"
    if "checkWinner (board s) = Some Tie"
    using that by blast
  moreover have "computerMove s \<noteq> Inl e"
    by (simp add: computerMove_def split: option.splits)
  ultimately show ?thesis
    using full by blast
qed

theorem computerMove_no_error_witness:
  "emptySquares [Some MarkX, Some MarkO, Some MarkX, Some MarkX, Some MarkO, Some MarkO,
                 Some MarkO, Some MarkX, Some MarkX] = []
   \<and> checkWinner [Some MarkX, Some MarkO, Some MarkX, Some MarkX, Some MarkO, Some MarkO,
                  Some MarkO, Some MarkX, Some MarkX] = Some Tie
   \<and> computerMove
       \<lparr>board = [Some MarkX, Some MarkO, Some MarkX, Some MarkX, Some MarkO, Some MarkO,
                 Some MarkO, Some MarkX, Some MarkX],
        isPlayerTurn = False, winner = None, playerScore = 0, aiScore = 0, draws = 0,
        countdown = 0, gameStarted = True, roundReady = True\<rparr>
     = Inr \<lparr>board = [Some MarkX, Some MarkO, Some MarkX, Some MarkX, Some MarkO, Some MarkO,
                 Some MarkO, Some MarkX, Some MarkX],
        isPlayerTurn = True, winner = None, playerScore = 0, aiScore = 0, draws = 0,
        countdown = 0, gameStarted = True, roundReady = True\<rparr>"
proof -
  let ?s = "\<lparr>board = [Some MarkX, Some MarkO, Some MarkX, Some MarkX, Some MarkO, Some MarkO,
                 Some MarkO, Some MarkX, Some MarkX],
        isPlayerTurn = False, winner = None, playerScore = 0, aiScore = 0, draws = 0,
        countdown = 0, gameStarted = True, roundReady = True\<rparr>"
  have e: "emptySquares [Some MarkX, Some MarkO, Some MarkX, Some MarkX, Some MarkO, Some MarkO,
                 Some MarkO, Some MarkX, Some MarkX] = []"
    by code_simp
  have t: "checkWinner [Some MarkX, Some MarkO, Some MarkX, Some MarkX, Some MarkO, Some MarkO,
                  Some MarkO, Some MarkX, Some MarkX] = Some Tie"
    by code_simp
  from e have "emptySquares (board ?s) = []" by simp
  with computerMove_no_error [of ?s] have "computerMove ?s = Inr (?s\<lparr>isPlayerTurn := True\<rparr>)"
    by blast
  with e t show ?thesis by simp
qed

text \<open>
  The claim as stated fails. On a tied board \<open>computerMove\<close> does not signal
  \<open>PreconditionViolated\<close>: it returns normally and hands the turn to the human. On
  a board that \<open>X\<close> has won it returns normally as well, and places \<open>O\<close> into cell 5.
\<close>

theorem computerMove_PreconditionViolated_counterexample:
  "checkWinner [Some MarkX, Some MarkO, Some MarkX, Some MarkX, Some MarkO, Some MarkO,
                Some MarkO, Some MarkX, Some MarkX] = Some Tie
   \<and> computerMove
       \<lparr>board = [Some MarkX, Some MarkO, Some MarkX, Some MarkX, Some MarkO, Some MarkO,
                 Some MarkO, Some MarkX, Some MarkX],
        isPlayerTurn = False, winner = None, playerScore = 0, aiScore = 0, draws = 0,
        countdown = 0, gameStarted = True, roundReady = True\<rparr>
     \<noteq> Inl PreconditionViolated
   \<and> checkWinner [Some MarkX, Some MarkX, Some MarkX, Some MarkO, Some MarkO, None,
                  None, None, None] = Some (Winner MarkX)
   \<and> computerMove
       \<lparr>board = [Some MarkX, Some MarkX, Some MarkX, Some MarkO, Some MarkO, None,
                 None, None, None],
        isPlayerTurn = False, winner = None, playerScore = 0, aiScore = 0, draws = 0,
        countdown = 0, gameStarted = True, roundReady = True\<rparr>
     = Inr \<lparr>board = [Some MarkX, Some MarkX, Some MarkX, Some MarkO, Some MarkO, Some MarkO,
                 None, None, None],
        isPlayerTurn = True, winner = None, playerScore = 0, aiScore = 0, draws = 0,
        countdown = 0, gameStarted = True, roundReady = True\<rparr>"
proof -
  have "checkWinner [Some MarkX, Some MarkO, Some MarkX, Some MarkX, Some MarkO, Some MarkO,
                Some MarkO, Some MarkX, Some MarkX] = Some Tie"
    by code_simp
  moreover have "checkWinner [Some MarkX, Some MarkX, Some MarkX, Some MarkO, Some MarkO, None,
                  None, None, None] = Some (Winner MarkX)"
    by code_simp
  moreover have "bestMove [Some MarkX, Some MarkX, Some MarkX, Some MarkO, Some MarkO, None,
                  None, None, None] = Some 5"
    by code_simp
  ultimately show ?thesis
    by (simp add: computerMove_def split: option.splits)
qed

end
